theory Spec2Isabelle
  imports Main "HOL-Library.Multiset"
begin

section \<open>The environment of the service worker\<close>

text \<open>
  The background script talks to two paginated REST endpoints through \<^verbatim>\<open>fetch\<close> and to
  \<^verbatim>\<open>chrome.storage.local\<close>. Both are modelled explicitly.

  A call \<^verbatim>\<open>await fetch(url)\<close> has three kinds of outcome: the promise rejects (the host is
  unreachable, the connection drops), or it fulfils with a response whose \<^verbatim>\<open>ok\<close> flag is
  false (a status outside 200..299), or it fulfils with a successful response whose JSON
  body is then read with \<^verbatim>\<open>res.json()\<close>. A body has the shape that both endpoints
  share: an optional array \<^verbatim>\<open>data\<close> and an optional string \<^verbatim>\<open>nextPageCursor\<close>.
  Bodies are taken to be well-formed JSON of that shape, identifiers and prices to be
  integers, and writes to \<^verbatim>\<open>chrome.storage.local\<close> to succeed.
\<close>

record 'x page =
  data :: "'x list option"
  nextPageCursor :: "string option"

datatype 'x response =
    Rejected
  | Response (ok: bool) (status: nat) (json: "'x page")

text \<open>A community identifier is \<^verbatim>\<open>string|number\<close> in the source.\<close>

datatype community_id = IdNum int | IdStr string

text \<open>The two URL templates of the source, with the values interpolated into them.\<close>

datatype request =
    GroupUsers community_id nat string
  | Collectibles nat nat string

record user_info =
  userId :: nat
  username :: string

record group_entry =
  user :: user_info

record collectible =
  recentAveragePrice :: "int option"

text \<open>
  The upstream data: what each endpoint answers for a given identifier and cursor. It is a
  fixed function for the duration of a run; the network state that changes is the log of
  the requests issued so far.
\<close>

record upstream =
  groups_api :: "community_id \<Rightarrow> string \<Rightarrow> group_entry response"
  inventory_api :: "nat \<Rightarrow> string \<Rightarrow> collectible response"

datatype error =
    FetchRejected
  | FailedToFetchMembers nat
  | NoPreviousCommunity

definition LIMITED_THRESHOLD :: int where
  "LIMITED_THRESHOLD = 10000"

definition CONCURRENCY_LIMIT :: nat where
  "CONCURRENCY_LIMIT = 15"

section \<open>Numbers\<close>

text \<open>
  A JavaScript number is an IEEE-754 double. The numbers of this program are prices and
  their sums; those that are integers are kept as \<open>int\<close>. Every integer up to \<open>2^53\<close> in
  magnitude is a double; beyond that a double has a significand of 53 bits, and the
  result of an addition is the double nearest to the exact sum, the one with the even
  significand when two are equally near. (A sum of \<open>2^1024\<close> or more is \<^verbatim>\<open>Infinity\<close> in
  JavaScript; that and prices with a fraction are outside \<open>int\<close>.)
\<close>

function bit_length :: "int \<Rightarrow> nat" where
  "bit_length x = (if x \<le> 0 then 0 else Suc (bit_length (x div 2)))"
  by pat_completeness auto
termination
  by (relation "measure nat") auto

declare bit_length.simps [simp del]

definition round_double :: "int \<Rightarrow> int" where
  "round_double x =
     (if \<bar>x\<bar> \<le> 2 ^ 53 then x
      else
        (let ulp = 2 ^ (bit_length \<bar>x\<bar> - 53);
             q = \<bar>x\<bar> div ulp;
             r = \<bar>x\<bar> mod ulp;
             k = (if 2 * r < ulp \<or> (2 * r = ulp \<and> even q) then q else q + 1)
         in sgn x * (k * ulp)))"

section \<open>The wealth aggregator\<close>

text \<open>
  One item of the inner loop of \<^verbatim>\<open>fetchUserRAP\<close>:
  \<^verbatim>\<open>const price = item.recentAveragePrice || 0; if (price >= LIMITED_THRESHOLD) rap += price;\<close>
  The addition is an addition of doubles.
\<close>

definition add_item :: "collectible \<Rightarrow> int \<Rightarrow> int" where
  "add_item item rap =
     (let price = (case recentAveragePrice item of None \<Rightarrow> 0 | Some v \<Rightarrow> v)
      in if price \<ge> LIMITED_THRESHOLD then round_double (rap + price) else rap)"

text \<open>
  The outcome of one turn of a \<^verbatim>\<open>while (true)\<close> loop: go round again with a new local
  state, leave the loop with a value, or throw.
\<close>

datatype ('s, 'v) turn = Again 's | Leave 'v | Throw error

text \<open>
  One turn of the loop of \<^verbatim>\<open>fetchUserRAP\<close>, from the local state \<open>(cursor, rap)\<close>. The
  request is appended to the log; a rejected fetch is not caught by the source and
  leaves the function as an exception. The test \<^verbatim>\<open>!data.nextPageCursor\<close> holds when the
  cursor is absent (null or undefined) and also when it is the empty string.
\<close>

definition userRAP_turn ::
  "upstream \<Rightarrow> nat \<Rightarrow> string \<times> int \<Rightarrow> request list \<Rightarrow> (string \<times> int, int) turn \<times> request list" where
  "userRAP_turn up uid st log =
     (case st of (cursor, rap) \<Rightarrow>
       (let log' = log @ [Collectibles uid 100 cursor] in
        case inventory_api up uid cursor of
          Rejected \<Rightarrow> (Throw FetchRejected, log')
        | Response okay code body \<Rightarrow>
            if \<not> okay then (Leave rap, log')
            else
              (let rap' = fold add_item (case data body of None \<Rightarrow> [] | Some xs \<Rightarrow> xs) rap in
               case nextPageCursor body of
                 None \<Rightarrow> (Leave rap', log')
               | Some next \<Rightarrow> if next = [] then (Leave rap', log') else (Again (next, rap'), log'))))"

partial_function (option) userRAP_loop ::
  "upstream \<Rightarrow> nat \<Rightarrow> string \<times> int \<Rightarrow> request list \<Rightarrow> ((error + int) \<times> request list) option" where
  "userRAP_loop up uid st log =
     (case userRAP_turn up uid st log of
        (Again st', log') \<Rightarrow> userRAP_loop up uid st' log'
      | (Leave rap, log') \<Rightarrow> Some (Inr rap, log')
      | (Throw e, log') \<Rightarrow> Some (Inl e, log'))"

definition fetchUserRAP ::
  "upstream \<Rightarrow> nat \<Rightarrow> request list \<Rightarrow> ((error + int) \<times> request list) option" where
  "fetchUserRAP up uid log = userRAP_loop up uid ([], 0) log"

section \<open>The roster fetch\<close>

text \<open>
  One turn of the loop of \<^verbatim>\<open>fetchAllMembers\<close>, from the local state \<open>(cursor, members)\<close>.
  A non-success response throws \<^verbatim>\<open>Error(`Failed to fetch members: ${res.status}`)\<close>.
\<close>

definition members_turn ::
  "upstream \<Rightarrow> community_id \<Rightarrow> string \<times> user_info list \<Rightarrow> request list
     \<Rightarrow> (string \<times> user_info list, user_info list) turn \<times> request list" where
  "members_turn up communityId st log =
     (case st of (cursor, members) \<Rightarrow>
       (let log' = log @ [GroupUsers communityId 100 cursor] in
        case groups_api up communityId cursor of
          Rejected \<Rightarrow> (Throw FetchRejected, log')
        | Response okay code body \<Rightarrow>
            if \<not> okay then (Throw (FailedToFetchMembers code), log')
            else
              (let members' = members @
                     map (\<lambda>entry. \<lparr>userId = userId (user entry), username = username (user entry)\<rparr>)
                       (case data body of None \<Rightarrow> [] | Some xs \<Rightarrow> xs) in
               case nextPageCursor body of
                 None \<Rightarrow> (Leave members', log')
               | Some next \<Rightarrow>
                   if next = [] then (Leave members', log') else (Again (next, members'), log'))))"

partial_function (option) members_loop ::
  "upstream \<Rightarrow> community_id \<Rightarrow> string \<times> user_info list \<Rightarrow> request list
     \<Rightarrow> ((error + user_info list) \<times> request list) option" where
  "members_loop up communityId st log =
     (case members_turn up communityId st log of
        (Again st', log') \<Rightarrow> members_loop up communityId st' log'
      | (Leave members, log') \<Rightarrow> Some (Inr members, log')
      | (Throw e, log') \<Rightarrow> Some (Inl e, log'))"

definition fetchAllMembers ::
  "upstream \<Rightarrow> community_id \<Rightarrow> request list \<Rightarrow> ((error + user_info list) \<times> request list) option" where
  "fetchAllMembers up communityId log = members_loop up communityId ([], []) log"

section \<open>The bounded-concurrency executor\<close>

text \<open>
  \<^verbatim>\<open>asyncPool\<close> runs on the single thread of the JavaScript event loop. Its promises are
  modelled by a transition system. Positions of the input array name the promises: \<open>j\<close>
  stands for the promise \<^verbatim>\<open>p\<close> created in the \<open>j\<close>-th turn of the \<^verbatim>\<open>for\<close> loop and for the
  promise \<^verbatim>\<open>e = p.then(...)\<close> of the same turn.

  An asynchronous task is a local state that is resumed by the event loop: each
  resumption runs the task up to its next suspension, possibly changing the store that
  the tasks share, and either suspends again, or returns (its promise fulfils), or
  throws (its promise rejects).
\<close>

record ('a, 't, 'r, 's) async_fn =
  start :: "'a \<Rightarrow> int \<Rightarrow> 't"
  resume :: "'t \<Rightarrow> 's \<Rightarrow> ('t, 'r) turn \<times> 's"

datatype 'r settle = Fulfilled 'r | RejectedWith error

text \<open>
  Where the body of \<^verbatim>\<open>asyncPool\<close> is: running its loop synchronously, suspended at
  \<^verbatim>\<open>await Promise.race(executing)\<close> (with the array that was passed to the race),
  suspended in \<^verbatim>\<open>Promise.all(ret)\<close>, or finished.
\<close>

datatype 'r control = InLoop | AwaitRace "nat list" | AwaitAll | Resolved "'r list" | Failed error

record ('a, 't, 'r, 's) pool_state =
  pos :: nat
  ret :: "nat list"
  executing :: "nat list"
  queued :: "nat list"
  calls :: "(nat \<times> 'a \<times> int) list"
  running :: "nat \<rightharpoonup> 't"
  settled :: "nat \<rightharpoonup> 'r settle"
  control :: "'r control"
  store :: 's

text \<open>
  The elements of the input array are JavaScript values, and \<^verbatim>\<open>array.indexOf(item)\<close>
  compares them with \<^verbatim>\<open>===\<close>: primitive values (strings, numbers) by value, objects by
  reference. The type of the elements is to be one whose equality is that comparison. A
  string is a \<open>string\<close>. An object is its address together with its properties; at any time
  there is one object at an address, so that two objects with equal properties at different
  addresses are different elements, and one object occurring twice is the same element
  twice.
\<close>

datatype 'a object = Object (address: nat) (props: 'a)

text \<open>
  \<^verbatim>\<open>array.indexOf(item)\<close>: the first position holding an element strictly equal to the
  item, \<open>-1\<close> if there is none.
\<close>

fun indexOf :: "'a list \<Rightarrow> 'a \<Rightarrow> int" where
  "indexOf [] x = -1"
| "indexOf (y # ys) x =
     (if y = x then 0 else (let r = indexOf ys x in if r = -1 then -1 else r + 1))"

definition asyncPool_init :: "'s \<Rightarrow> ('a, 't, 'r, 's) pool_state" where
  "asyncPool_init st =
     \<lparr>pos = 0, ret = [], executing = [], queued = [], calls = [], running = Map.empty,
      settled = Map.empty, control = InLoop, store = st\<rparr>"

text \<open>
  One turn of the \<^verbatim>\<open>for\<close> loop, run synchronously: the job that will call
  \<^verbatim>\<open>iteratorFn\<close> is put on the microtask queue, \<^verbatim>\<open>p\<close> is pushed on \<^verbatim>\<open>ret\<close>, and, when
  \<^verbatim>\<open>poolLimit <= array.length\<close>, \<^verbatim>\<open>e\<close> is pushed on \<^verbatim>\<open>executing\<close> and the loop suspends
  if \<^verbatim>\<open>executing.length >= poolLimit\<close>.
\<close>

definition admit :: "nat \<Rightarrow> 'a list \<Rightarrow> ('a, 't, 'r, 's) pool_state \<Rightarrow> ('a, 't, 'r, 's) pool_state" where
  "admit poolLimit array s =
     (let j = pos s;
          s1 = s\<lparr>pos := j + 1, ret := ret s @ [j], queued := queued s @ [j]\<rparr>
      in if poolLimit \<le> length array then
           (let ex = executing s @ [j]
            in s1\<lparr>executing := ex,
                  control := (if length ex \<ge> poolLimit then AwaitRace ex else InLoop)\<rparr>)
         else s1)"

text \<open>The job \<^verbatim>\<open>() => iteratorFn(item, array.indexOf(item))\<close> for position \<open>j\<close>.\<close>

definition invoke ::
  "'a list \<Rightarrow> ('a, 't, 'r, 's) async_fn \<Rightarrow> nat \<Rightarrow> ('a, 't, 'r, 's) pool_state \<Rightarrow> ('a, 't, 'r, 's) pool_state" where
  "invoke array iteratorFn j s =
     (let item = array ! j; i = indexOf array item
      in s\<lparr>queued := tl (queued s), calls := calls s @ [(j, item, i)],
            running := (running s)(j \<mapsto> start iteratorFn item i)\<rparr>)"

text \<open>Resuming the task of position \<open>j\<close>, whose local state is \<open>t\<close>.\<close>

definition advance ::
  "('a, 't, 'r, 's) async_fn \<Rightarrow> nat \<Rightarrow> 't \<Rightarrow> ('a, 't, 'r, 's) pool_state \<Rightarrow> ('a, 't, 'r, 's) pool_state" where
  "advance iteratorFn j t s =
     (case resume iteratorFn t (store s) of
        (Again t', st') \<Rightarrow> s\<lparr>running := (running s)(j \<mapsto> t'), store := st'\<rparr>
      | (Leave v, st') \<Rightarrow>
          s\<lparr>running := (running s)(j := None), settled := (settled s)(j \<mapsto> Fulfilled v), store := st'\<rparr>
      | (Throw err, st') \<Rightarrow>
          s\<lparr>running := (running s)(j := None), settled := (settled s)(j \<mapsto> RejectedWith err), store := st'\<rparr>)"

fun fulfilled :: "'r settle option \<Rightarrow> bool" where
  "fulfilled (Some (Fulfilled v)) = True"
| "fulfilled _ = False"

text \<open>
  The values of the promises \<open>js\<close>, in that order, when all of them have fulfilled.
\<close>

fun collect :: "(nat \<rightharpoonup> 'r settle) \<Rightarrow> nat list \<Rightarrow> 'r list option" where
  "collect m [] = Some []"
| "collect m (j # js) =
     (case m j of
        Some (Fulfilled v) \<Rightarrow> (case collect m js of None \<Rightarrow> None | Some vs \<Rightarrow> Some (v # vs))
      | _ \<Rightarrow> None)"

text \<open>
  The steps of the event loop while a call of \<^verbatim>\<open>asyncPool\<close> is alive. Synchronous code
  runs to completion: while the body is in its loop nothing else runs, and jobs, task
  resumptions and promise reactions run only while the body is suspended or finished.
  \<^item> \<open>loop_turn\<close>, \<open>loop_exit\<close>: the \<^verbatim>\<open>for\<close> loop and \<^verbatim>\<open>return Promise.all(ret)\<close>;
  \<^item> \<open>job\<close>: the oldest queued job calls \<^verbatim>\<open>iteratorFn\<close>;
  \<^item> \<open>task\<close>: a suspended task is resumed;
  \<^item> \<open>splice\<close>: \<^verbatim>\<open>p\<close> has fulfilled and the reaction
    \<^verbatim>\<open>() => executing.splice(executing.indexOf(e), 1)\<close> runs, after which \<^verbatim>\<open>e\<close> is fulfilled
    (when \<^verbatim>\<open>p\<close> rejects the reaction does not run, \<^verbatim>\<open>e\<close> rejects and stays in the array);
  \<^item> \<open>race_fulfilled\<close>, \<open>race_rejected\<close>: a promise handed to \<^verbatim>\<open>Promise.race\<close> has
    settled, and the body resumes or throws;
  \<^item> \<open>all_fulfilled\<close>, \<open>all_rejected\<close>: \<^verbatim>\<open>Promise.all(ret)\<close> fulfils with the values in
    the order of \<^verbatim>\<open>ret\<close> once every promise in it has fulfilled, and rejects when one of
    them has rejected.
  Which of the enabled steps comes next is left open, so every order in which the tasks
  can complete is covered.
\<close>

inductive asyncPool_step ::
  "nat \<Rightarrow> 'a list \<Rightarrow> ('a, 't, 'r, 's) async_fn
     \<Rightarrow> ('a, 't, 'r, 's) pool_state \<Rightarrow> ('a, 't, 'r, 's) pool_state \<Rightarrow> bool"
  for poolLimit :: nat and array :: "'a list" and iteratorFn :: "('a, 't, 'r, 's) async_fn" where
  loop_turn: "control s = InLoop \<Longrightarrow> pos s < length array
     \<Longrightarrow> asyncPool_step poolLimit array iteratorFn s (admit poolLimit array s)"
| loop_exit: "control s = InLoop \<Longrightarrow> pos s = length array
     \<Longrightarrow> asyncPool_step poolLimit array iteratorFn s (s\<lparr>control := AwaitAll\<rparr>)"
| job: "control s \<noteq> InLoop \<Longrightarrow> queued s = j # q
     \<Longrightarrow> asyncPool_step poolLimit array iteratorFn s (invoke array iteratorFn j s)"
| task: "control s \<noteq> InLoop \<Longrightarrow> running s j = Some t
     \<Longrightarrow> asyncPool_step poolLimit array iteratorFn s (advance iteratorFn j t s)"
| splice: "control s \<noteq> InLoop \<Longrightarrow> j \<in> set (executing s) \<Longrightarrow> fulfilled (settled s j)
     \<Longrightarrow> asyncPool_step poolLimit array iteratorFn s (s\<lparr>executing := remove1 j (executing s)\<rparr>)"
| race_fulfilled: "control s = AwaitRace snap \<Longrightarrow> j \<in> set snap \<Longrightarrow> j \<notin> set (executing s)
     \<Longrightarrow> asyncPool_step poolLimit array iteratorFn s (s\<lparr>control := InLoop\<rparr>)"
| race_rejected: "control s = AwaitRace snap \<Longrightarrow> j \<in> set snap \<Longrightarrow> settled s j = Some (RejectedWith err)
     \<Longrightarrow> asyncPool_step poolLimit array iteratorFn s (s\<lparr>control := Failed err\<rparr>)"
| all_fulfilled: "control s = AwaitAll \<Longrightarrow> collect (settled s) (ret s) = Some rs
     \<Longrightarrow> asyncPool_step poolLimit array iteratorFn s (s\<lparr>control := Resolved rs\<rparr>)"
| all_rejected: "control s = AwaitAll \<Longrightarrow> j \<in> set (ret s) \<Longrightarrow> settled s j = Some (RejectedWith err)
     \<Longrightarrow> asyncPool_step poolLimit array iteratorFn s (s\<lparr>control := Failed err\<rparr>)"

text \<open>The states that a call \<^verbatim>\<open>asyncPool(poolLimit, array, iteratorFn)\<close> can be in.\<close>

definition asyncPool_reach ::
  "nat \<Rightarrow> 'a list \<Rightarrow> ('a, 't, 'r, 's) async_fn \<Rightarrow> 's \<Rightarrow> ('a, 't, 'r, 's) pool_state \<Rightarrow> bool" where
  "asyncPool_reach poolLimit array iteratorFn st s =
     rtranclp (asyncPool_step poolLimit array iteratorFn) (asyncPool_init st) s"

text \<open>
  What can be observed of a state: the positions for which \<^verbatim>\<open>iteratorFn\<close> has been
  called, in the order of the calls, and the tasks that have been started and have not
  completed yet.
\<close>

definition started :: "('a, 't, 'r, 's) pool_state \<Rightarrow> nat list" where
  "started s = map fst (calls s)"

definition in_flight :: "('a, 't, 'r, 's) pool_state \<Rightarrow> nat set" where
  "in_flight s = dom (running s)"

text \<open>A state from which the event loop has nothing left to do.\<close>

definition at_rest ::
  "nat \<Rightarrow> 'a list \<Rightarrow> ('a, 't, 'r, 's) async_fn \<Rightarrow> ('a, 't, 'r, 's) pool_state \<Rightarrow> bool" where
  "at_rest poolLimit array iteratorFn s \<longleftrightarrow> (\<nexists>s'. asyncPool_step poolLimit array iteratorFn s s')"

definition never_throws :: "('a, 't, 'r, 's) async_fn \<Rightarrow> bool" where
  "never_throws iteratorFn \<longleftrightarrow> (\<forall>t st err. fst (resume iteratorFn t st) \<noteq> Throw err)"

text \<open>
  Invariants of the transition system: the loop counter and \<^verbatim>\<open>ret\<close>; the phases that a
  position goes through (queued, running, settled); the log of calls; the array
  \<^verbatim>\<open>executing\<close>; and the value with which the call resolves.
\<close>

definition inv_loop :: "'a list \<Rightarrow> ('a, 't, 'r, 's) pool_state \<Rightarrow> bool" where
  "inv_loop array s \<longleftrightarrow>
     pos s \<le> length array \<and> ret s = [0..<pos s] \<and>
     (control s = AwaitAll \<longrightarrow> pos s = length array) \<and>
     (\<forall>rs. control s = Resolved rs \<longrightarrow> pos s = length array)"

definition inv_phase :: "('a, 't, 'r, 's) pool_state \<Rightarrow> bool" where
  "inv_phase s \<longleftrightarrow>
     distinct (queued s) \<and>
     set (queued s) \<union> dom (running s) \<union> dom (settled s) = {..<pos s} \<and>
     set (queued s) \<inter> dom (running s) = {} \<and>
     set (queued s) \<inter> dom (settled s) = {} \<and>
     dom (running s) \<inter> dom (settled s) = {}"

definition inv_calls :: "'a list \<Rightarrow> ('a, 't, 'r, 's) pool_state \<Rightarrow> bool" where
  "inv_calls array s \<longleftrightarrow>
     distinct (map fst (calls s)) \<and>
     fst ` set (calls s) = dom (running s) \<union> dom (settled s) \<and>
     (\<forall>c \<in> set (calls s). c = (fst c, array ! fst c, indexOf array (array ! fst c)))"

definition inv_exec :: "nat \<Rightarrow> ('a, 't, 'r, 's) pool_state \<Rightarrow> bool" where
  "inv_exec poolLimit s \<longleftrightarrow>
     distinct (executing s) \<and> set (executing s) \<subseteq> {..<pos s} \<and>
     length (executing s) \<le> poolLimit \<and>
     (control s = InLoop \<longrightarrow> length (executing s) < poolLimit) \<and>
     (\<forall>j < pos s. j \<notin> set (executing s) \<longrightarrow> fulfilled (settled s j)) \<and>
     (\<forall>snap. control s = AwaitRace snap \<longrightarrow>
        distinct snap \<and> set (executing s) \<subseteq> set snap \<and> length snap \<le> poolLimit)"

definition inv_result :: "'a list \<Rightarrow> ('a, 't, 'r, 's) pool_state \<Rightarrow> bool" where
  "inv_result array s \<longleftrightarrow>
     (\<forall>rs. control s = Resolved rs \<longrightarrow>
        length rs = length array \<and>
        (\<forall>j < length array. settled s j = Some (Fulfilled (rs ! j))))"

definition inv_race :: "('a, 't, 'r, 's) pool_state \<Rightarrow> bool" where
  "inv_race s \<longleftrightarrow>
     set (executing s) \<subseteq> {..<pos s} \<and>
     (\<forall>snap. control s = AwaitRace snap \<longrightarrow> snap \<noteq> [] \<and> set snap \<subseteq> {..<pos s})"

definition inv_fulfil :: "('a, 't, 'r, 's) pool_state \<Rightarrow> bool" where
  "inv_fulfil s \<longleftrightarrow>
     (\<forall>j err. settled s j \<noteq> Some (RejectedWith err)) \<and> (\<forall>err. control s \<noteq> Failed err)"

text \<open>Two tasks for running the executor: one returns its item, one rejects for the item \<open>a\<close>.\<close>

definition echo_task :: "(string, string, string, unit) async_fn" where
  "echo_task = \<lparr>start = (\<lambda>item i. item), resume = (\<lambda>t st. (Leave t, st))\<rparr>"

definition failing_task :: "(string, string, string, unit) async_fn" where
  "failing_task =
     \<lparr>start = (\<lambda>item i. item),
      resume = (\<lambda>t st. (if t = ''a'' then Throw FetchRejected else Leave t, st))\<rparr>"


text \<open>
  A bound on the number of times a task suspends: every resumption that suspends again
  lowers it.
\<close>

definition task_bound :: "('a, 't, 'r, 's) async_fn \<Rightarrow> ('t \<Rightarrow> nat) \<Rightarrow> bool" where
  "task_bound iteratorFn m \<longleftrightarrow>
     (\<forall>t st. case fst (resume iteratorFn t st) of Again t' \<Rightarrow> m t' < m t | _ \<Rightarrow> True)"

text \<open>
  A measure of the work that is left: for every position not yet admitted, queued or
  running what its task may still do, one for every promise in \<^verbatim>\<open>executing\<close>, and where
  the body stands.
\<close>

definition weight ::
  "'a list \<Rightarrow> ('a, 't, 'r, 's) async_fn \<Rightarrow> ('t \<Rightarrow> nat) \<Rightarrow> ('a, 't, 'r, 's) pool_state \<Rightarrow> nat \<Rightarrow> nat" where
  "weight array iteratorFn m s j =
     (let m0 = m (start iteratorFn (array ! j) (indexOf array (array ! j)))
      in if pos s \<le> j then m0 + 5
         else if j \<in> set (queued s) then m0 + 2
         else (case running s j of Some t \<Rightarrow> m t + 1 | None \<Rightarrow> 0))"

fun control_weight :: "'r control \<Rightarrow> nat" where
  "control_weight InLoop = 2"
| "control_weight (AwaitRace snap) = 3"
| "control_weight AwaitAll = 1"
| "control_weight (Resolved rs) = 0"
| "control_weight (Failed err) = 0"

definition pool_measure ::
  "'a list \<Rightarrow> ('a, 't, 'r, 's) async_fn \<Rightarrow> ('t \<Rightarrow> nat) \<Rightarrow> ('a, 't, 'r, 's) pool_state \<Rightarrow> nat" where
  "pool_measure array iteratorFn m s =
     (\<Sum>j < length array. weight array iteratorFn m s j)
     + length (executing s) + control_weight (control s)"

section \<open>The ranking pipeline\<close>

record ranked_entry =
  username' :: string
  rap :: int

text \<open>
  \<^verbatim>\<open>Array.prototype.sort\<close> with a comparison function: a stable sort that puts \<open>a\<close> after
  \<open>b\<close> when \<open>cmp a b > 0\<close>. It is written as an insertion sort; for a consistent
  comparison function the result of a stable sort does not depend on the algorithm.
\<close>

fun insert_sorted :: "('a \<Rightarrow> 'a \<Rightarrow> int) \<Rightarrow> 'a \<Rightarrow> 'a list \<Rightarrow> 'a list" where
  "insert_sorted cmp x [] = [x]"
| "insert_sorted cmp x (y # ys) =
     (if cmp x y \<le> 0 then x # y # ys else y # insert_sorted cmp x ys)"

definition sort_by :: "('a \<Rightarrow> 'a \<Rightarrow> int) \<Rightarrow> 'a list \<Rightarrow> 'a list" where
  "sort_by cmp xs = foldr (insert_sorted cmp) xs []"

text \<open>
  \<^verbatim>\<open>members.map((m) => ({ username: m.username, rap: rapResults[m.userId] || 0 }))
         .sort((a, b) => b.rap - a.rap)\<close>
\<close>

definition project :: "(nat \<rightharpoonup> int) \<Rightarrow> user_info \<Rightarrow> ranked_entry" where
  "project rapResults m =
     \<lparr>username' = username m,
      rap = (case rapResults (userId m) of None \<Rightarrow> 0 | Some v \<Rightarrow> v)\<rparr>"

definition rank :: "user_info list \<Rightarrow> (nat \<rightharpoonup> int) \<Rightarrow> ranked_entry list" where
  "rank members rapResults = sort_by (\<lambda>a b. rap b - rap a) (map (project rapResults) members)"

text \<open>
  What the tasks of one run share: the object \<^verbatim>\<open>rapResults\<close> and the network, of which
  the log of requests is kept.
\<close>

record shared =
  rapResults :: "nat \<rightharpoonup> int"
  requests :: "request list"

text \<open>
  The array \<^verbatim>\<open>members\<close> that \<^verbatim>\<open>fetchAllMembers\<close> returns holds one object for every roster
  entry, each created by the object literal of its own \<^verbatim>\<open>members.push({ ... })\<close>: the
  objects are all different, also when two entries carry the same identifier and name.
  The object at position \<open>j\<close> is given the address \<open>j\<close>.
\<close>

definition objects :: "'a list \<Rightarrow> 'a object list" where
  "objects xs = map2 Object [0..<length xs] xs"

text \<open>
  The task \<^verbatim>\<open>async (member) => { const rap = await fetchUserRAP(member.userId);
  rapResults[member.userId] = rap; }\<close>. Its local state is the member's identifier and the
  local state of the loop of \<^verbatim>\<open>fetchUserRAP\<close>; each resumption is one turn of that loop (one
  page request and its response), and when the loop is left the result is stored. The
  second argument of \<^verbatim>\<open>iteratorFn\<close> is ignored.
\<close>

definition member_task :: "upstream \<Rightarrow> (user_info object, nat \<times> string \<times> int, unit, shared) async_fn" where
  "member_task up =
     \<lparr>start = (\<lambda>member i. (userId (props member), ([], 0))),
      resume = (\<lambda>t sh. case t of (uid, st) \<Rightarrow>
        (case userRAP_turn up uid st (requests sh) of
           (Again st', log') \<Rightarrow> (Again (uid, st'), sh\<lparr>requests := log'\<rparr>)
         | (Leave r, log') \<Rightarrow> (Leave (), sh\<lparr>rapResults := (rapResults sh)(uid \<mapsto> r), requests := log'\<rparr>)
         | (Throw err, log') \<Rightarrow> (Throw err, sh\<lparr>requests := log'\<rparr>)))\<rparr>"

text \<open>The two keys that the extension keeps in \<^verbatim>\<open>chrome.storage.local\<close>.\<close>

record storage =
  lastCommunityId :: "community_id option"
  lastResults :: "ranked_entry list option"

record world =
  local_storage :: storage
  network_log :: "request list"

text \<open>
  \<^verbatim>\<open>processCommunity\<close>. A run ends with an exception (from the roster fetch, or from
  \<^verbatim>\<open>asyncPool\<close> when a task has rejected) or with the ranked list, after
  \<^verbatim>\<open>chrome.storage.local.set({ lastCommunityId: communityId, lastResults: ranked })\<close>. A
  run whose roster fetch or whose tasks go on for ever has no outcome.
\<close>

inductive processCommunity ::
  "upstream \<Rightarrow> community_id \<Rightarrow> world \<Rightarrow> (error + ranked_entry list) \<times> world \<Rightarrow> bool"
  for up :: upstream and communityId :: community_id and w :: world where
  roster_failed:
    "fetchAllMembers up communityId (network_log w) = Some (Inl err, log1)
     \<Longrightarrow> processCommunity up communityId w (Inl err, w\<lparr>network_log := log1\<rparr>)"
| pool_failed:
    "fetchAllMembers up communityId (network_log w) = Some (Inr members, log1)
     \<Longrightarrow> asyncPool_reach CONCURRENCY_LIMIT (objects members) (member_task up)
           \<lparr>rapResults = Map.empty, requests = log1\<rparr> s
     \<Longrightarrow> control s = Failed err
     \<Longrightarrow> processCommunity up communityId w (Inl err, w\<lparr>network_log := requests (store s)\<rparr>)"
| ranked:
    "fetchAllMembers up communityId (network_log w) = Some (Inr members, log1)
     \<Longrightarrow> asyncPool_reach CONCURRENCY_LIMIT (objects members) (member_task up)
           \<lparr>rapResults = Map.empty, requests = log1\<rparr> s
     \<Longrightarrow> control s = Resolved rs
     \<Longrightarrow> ranked = rank members (rapResults (store s))
     \<Longrightarrow> processCommunity up communityId w
           (Inr ranked,
            \<lparr>local_storage = \<lparr>lastCommunityId = Some communityId, lastResults = Some ranked\<rparr>,
             network_log = requests (store s)\<rparr>)"

section \<open>The message listener\<close>

datatype message = FETCH_COMMUNITY community_id | REFRESH | OtherMessage

text \<open>\<^verbatim>\<open>{ success: true, list }\<close> and \<^verbatim>\<open>{ success: false, error: err.message }\<close>.\<close>

datatype reply = Success "ranked_entry list" | Failure error

fun to_reply :: "error + ranked_entry list \<Rightarrow> reply" where
  "to_reply (Inr list) = Success list"
| "to_reply (Inl err) = Failure err"

text \<open>\<^verbatim>\<open>if (items.lastCommunityId)\<close>: the stored identifier is there and is truthy.\<close>

fun truthy :: "community_id \<Rightarrow> bool" where
  "truthy (IdNum n) = (n \<noteq> 0)"
| "truthy (IdStr s) = (s \<noteq> [])"

definition has_last :: "world \<Rightarrow> bool" where
  "has_last w = (case lastCommunityId (local_storage w) of None \<Rightarrow> False | Some c \<Rightarrow> truthy c)"

text \<open>
  The listener: the reply passed to \<^verbatim>\<open>sendResponse\<close>, if any, and the world afterwards.
\<close>

inductive on_message :: "upstream \<Rightarrow> message \<Rightarrow> world \<Rightarrow> reply option \<times> world \<Rightarrow> bool"
  for up :: upstream where
  fetch_community:
    "processCommunity up communityId w (r, w')
     \<Longrightarrow> on_message up (FETCH_COMMUNITY communityId) w (Some (to_reply r), w')"
| refresh:
    "has_last w \<Longrightarrow> lastCommunityId (local_storage w) = Some c
     \<Longrightarrow> processCommunity up c w (r, w')
     \<Longrightarrow> on_message up REFRESH w (Some (to_reply r), w')"
| refresh_nothing:
    "\<not> has_last w
     \<Longrightarrow> on_message up REFRESH w (Some (Failure NoPreviousCommunity), w)"
| other: "on_message up OtherMessage w (None, w)"

text \<open>
  What the two fetches return, without the log: \<open>None\<close> when the pagination goes on for
  ever.
\<close>

definition rap_value :: "upstream \<Rightarrow> nat \<Rightarrow> (error + int) option" where
  "rap_value up uid = map_option fst (fetchUserRAP up uid [])"


definition scores :: "upstream \<Rightarrow> nat \<rightharpoonup> int" where
  "scores up uid = (case rap_value up uid of Some (Inr v) \<Rightarrow> Some v | _ \<Rightarrow> None)"

text \<open>
  Invariant of the tasks of \<^verbatim>\<open>processCommunity\<close>: a running task belongs to the member at
  its position and what is left of its loop yields the member's score; every stored
  score is the score of its key; a task that has fulfilled has stored a score.
\<close>

definition inv_tasks :: "upstream \<Rightarrow> user_info list
     \<Rightarrow> (user_info object, nat \<times> string \<times> int, unit, shared) pool_state \<Rightarrow> bool" where
  "inv_tasks up members s \<longleftrightarrow>
     (\<forall>j uid st. running s j = Some (uid, st) \<longrightarrow>
        j < length members \<and> uid = userId (members ! j) \<and>
        (\<forall>log. map_option fst (userRAP_loop up uid st log) = rap_value up uid)) \<and>
     (\<forall>uid v. rapResults (store s) uid = Some v \<longrightarrow> rap_value up uid = Some (Inr v)) \<and>
     (\<forall>j. fulfilled (settled s j) \<longrightarrow>
        j < length members \<and> rapResults (store s) (userId (members ! j)) \<noteq> None)"

section \<open>What a paginated source returns\<close>

text \<open>
  The pages that a source hands out when its cursors are followed from a given cursor:
  each page is a successful response, a page naming a next cursor is followed by the
  pages from that cursor, and the sequence ends at a page without a next cursor, at a
  non-success response, or at a request that is rejected. This is the reading of the
  specification; it does not look at the code.
\<close>

datatype chain_end = LastPage | NonSuccess nat | Unreachable

inductive spec_page_chain :: "(string \<Rightarrow> 'x response) \<Rightarrow> string \<Rightarrow> 'x page list \<Rightarrow> chain_end \<Rightarrow> bool"
  for src :: "string \<Rightarrow> 'x response" where
  last_page: "src c = Response True code p \<Longrightarrow> nextPageCursor p = None \<Longrightarrow> spec_page_chain src c [p] LastPage"
| next_page: "src c = Response True code p \<Longrightarrow> nextPageCursor p = Some c' \<Longrightarrow> spec_page_chain src c' ps e
     \<Longrightarrow> spec_page_chain src c (p # ps) e"
| non_success: "src c = Response False code p \<Longrightarrow> spec_page_chain src c [] (NonSuccess code)"
| unreachable: "src c = Rejected \<Longrightarrow> spec_page_chain src c [] Unreachable"

definition page_items :: "'x page \<Rightarrow> 'x list" where
  "page_items p = (case data p of None \<Rightarrow> [] | Some xs \<Rightarrow> xs)"

text \<open>The sum of the values, where present, that are at least 10000, over all pages.\<close>

definition spec_qualifying_total :: "collectible page list \<Rightarrow> int" where
  "spec_qualifying_total ps =
     sum_list [v. p \<leftarrow> ps, item \<leftarrow> page_items p,
                  v \<leftarrow> (case recentAveragePrice item of None \<Rightarrow> [] | Some v \<Rightarrow> [v]), 10000 \<le> v]"

text \<open>The members that the entries of a roster page stand for.\<close>

definition page_members :: "group_entry page \<Rightarrow> user_info list" where
  "page_members p = map user (page_items p)"

section \<open>A small upstream, for running the definitions\<close>

text \<open>
  Community \<open>7\<close> has the members A (identifier 1) and B (identifier 2), on two roster
  pages; community \<open>9\<close> has no members. A owns one item of value 15000; B owns items of
  value 5000 and 12000 and one without a value, on two pages. Every other request is
  answered with a non-success status.
\<close>

definition no_page :: "'x page" where
  "no_page = \<lparr>data = None, nextPageCursor = None\<rparr>"

definition demo_roster :: "community_id \<Rightarrow> string \<Rightarrow> group_entry response" where
  "demo_roster communityId cursor =
     (if communityId = IdStr ''7'' \<and> cursor = [] then
        Response True 200 \<lparr>data = Some [\<lparr>user = \<lparr>userId = 1, username = ''A''\<rparr>\<rparr>],
                           nextPageCursor = Some ''r2''\<rparr>
      else if communityId = IdStr ''7'' \<and> cursor = ''r2'' then
        Response True 200 \<lparr>data = Some [\<lparr>user = \<lparr>userId = 2, username = ''B''\<rparr>\<rparr>],
                           nextPageCursor = None\<rparr>
      else if communityId = IdStr ''9'' \<and> cursor = [] then Response True 200 no_page
      else Response False 400 no_page)"

definition demo_inventory :: "nat \<Rightarrow> string \<Rightarrow> collectible response" where
  "demo_inventory uid cursor =
     (if uid = 1 \<and> cursor = [] then
        Response True 200 \<lparr>data = Some [\<lparr>recentAveragePrice = Some 15000\<rparr>], nextPageCursor = None\<rparr>
      else if uid = 2 \<and> cursor = [] then
        Response True 200 \<lparr>data = Some [\<lparr>recentAveragePrice = Some 5000\<rparr>], nextPageCursor = Some ''i2''\<rparr>
      else if uid = 2 \<and> cursor = ''i2'' then
        Response True 200 \<lparr>data = Some [\<lparr>recentAveragePrice = Some 12000\<rparr>, \<lparr>recentAveragePrice = None\<rparr>],
                           nextPageCursor = None\<rparr>
      else Response False 403 no_page)"

definition demo_upstream :: upstream where
  "demo_upstream = \<lparr>groups_api = demo_roster, inventory_api = demo_inventory\<rparr>"

text \<open>A member (identifier 3) who owns one item of value \<open>2^53\<close> and one of value 10001.\<close>

definition large_page :: "collectible page" where
  "large_page =
     \<lparr>data = Some [\<lparr>recentAveragePrice = Some 9007199254740992\<rparr>,
                   \<lparr>recentAveragePrice = Some 10001\<rparr>],
      nextPageCursor = None\<rparr>"

definition large_upstream :: upstream where
  "large_upstream =
     \<lparr>groups_api = demo_roster,
      inventory_api = (\<lambda>uid cursor. if uid = 3 \<and> cursor = [] then Response True 200 large_page
                                    else Response False 403 no_page)\<rparr>"

text \<open>The same roster when the inventory endpoint cannot be reached.\<close>

definition offline_upstream :: upstream where
  "offline_upstream = \<lparr>groups_api = demo_roster, inventory_api = (\<lambda>uid cursor. Rejected)\<rparr>"

text \<open>
  A world in which nothing has been stored yet, and the world after community \<open>7\<close> has
  been ranked from it.
\<close>

definition fresh_world :: world where
  "fresh_world = \<lparr>local_storage = \<lparr>lastCommunityId = None, lastResults = None\<rparr>, network_log = []\<rparr>"

definition demo_ranked :: "ranked_entry list" where
  "demo_ranked = [\<lparr>username' = ''A'', rap = 15000\<rparr>, \<lparr>username' = ''B'', rap = 12000\<rparr>]"

definition demo_requests :: "request list" where
  "demo_requests =
     [GroupUsers (IdStr ''7'') 100 [], GroupUsers (IdStr ''7'') 100 ''r2'',
      Collectibles 1 100 [], Collectibles 2 100 [], Collectibles 2 100 ''i2'']"

definition demo_world :: world where
  "demo_world =
     \<lparr>local_storage = \<lparr>lastCommunityId = Some (IdStr ''7''), lastResults = Some demo_ranked\<rparr>,
      network_log = demo_requests\<rparr>"

text \<open>
  An upstream in which every community exists and has no members, and the world after
  community \<open>0\<close> has been ranked against it from the fresh world.
\<close>

definition empty_upstream :: upstream where
  "empty_upstream =
     \<lparr>groups_api = (\<lambda>communityId cursor. Response True 200 no_page),
      inventory_api = demo_inventory\<rparr>"

definition zero_world :: world where
  "zero_world =
     \<lparr>local_storage = \<lparr>lastCommunityId = Some (IdNum 0), lastResults = Some []\<rparr>,
      network_log = [GroupUsers (IdNum 0) 100 []]\<rparr>"

text \<open>States of the executor that the sample tasks lead to.\<close>

definition rejected_early :: "(string, string, string, unit) pool_state" where
  "rejected_early =
     \<lparr>pos = 1, ret = [0], executing = [0], queued = [], calls = [(0, ''a'', 0)],
      running = Map.empty, settled = [0 \<mapsto> RejectedWith FetchRejected],
      control = Failed FetchRejected, store = ()\<rparr>"

definition both_done :: "(string, string, string, unit) pool_state" where
  "both_done =
     \<lparr>pos = 2, ret = [0, 1], executing = [], queued = [],
      calls = [(0, ''a'', 0), (1, ''b'', 1)],
      running = Map.empty, settled = [0 \<mapsto> Fulfilled ''a'', 1 \<mapsto> Fulfilled ''b''],
      control = Resolved [''a'', ''b''], store = ()\<rparr>"





section \<open>Properties of the paginated fetches\<close>

lemma spec_page_chain_unique:
  "spec_page_chain src c ps e \<Longrightarrow> spec_page_chain src c ps' e' \<Longrightarrow> ps = ps' \<and> e = e'"
proof (induction arbitrary: ps' e' rule: spec_page_chain.induct)
  case (last_page c code p)
  from last_page.prems show ?case
    using last_page.hyps by (cases rule: spec_page_chain.cases) simp_all
next
  case (next_page c code p c' ps e)
  from next_page.prems show ?case
  proof (cases rule: spec_page_chain.cases)
    case (next_page code2 p2 c2 ps2)
    with next_page.hyps have "p2 = p" "c2 = c'" by simp_all
    with next_page have "spec_page_chain src c' ps2 e'" by simp
    from next_page.IH[OF this] show ?thesis using next_page \<open>p2 = p\<close> by simp
  qed (use next_page.hyps in simp_all)
next
  case (non_success c code p)
  from non_success.prems show ?case
    using non_success.hyps by (cases rule: spec_page_chain.cases) simp_all
next
  case (unreachable c)
  from unreachable.prems show ?case
    using unreachable.hyps by (cases rule: spec_page_chain.cases) simp_all
qed

lemma bit_length_numeral:
  "bit_length (numeral (Num.Bit0 n)) = Suc (bit_length (numeral n))"
  "bit_length (numeral (Num.Bit1 n)) = Suc (bit_length (numeral n))"
  "bit_length 1 = 1" "bit_length 0 = 0"
  by (subst bit_length.simps, simp add: bit_length.simps)+

lemma round_double_exact: "\<bar>x\<bar> \<le> 2 ^ 53 \<Longrightarrow> round_double x = x"
  by (simp add: round_double_def)

lemma qualifying_nonneg:
  "0 \<le> sum_list [v. item \<leftarrow> xs,
                  v \<leftarrow> (case recentAveragePrice item of None \<Rightarrow> [] | Some v \<Rightarrow> [v]), 10000 \<le> (v::int)]"
  by (induction xs) (auto split: option.splits)

lemma fold_add_item:
  "0 \<le> acc \<Longrightarrow>
   acc + sum_list [v. item \<leftarrow> xs,
                  v \<leftarrow> (case recentAveragePrice item of None \<Rightarrow> [] | Some v \<Rightarrow> [v]), 10000 \<le> v] \<le> 2 ^ 53
   \<Longrightarrow> fold add_item xs acc = acc + sum_list [v. item \<leftarrow> xs,
                  v \<leftarrow> (case recentAveragePrice item of None \<Rightarrow> [] | Some v \<Rightarrow> [v]), 10000 \<le> v]"
proof (induction xs arbitrary: acc)
  case Nil
  then show ?case by simp
next
  case (Cons x xs)
  let ?rest = "sum_list [v. item \<leftarrow> xs,
                  v \<leftarrow> (case recentAveragePrice item of None \<Rightarrow> [] | Some v \<Rightarrow> [v]), 10000 \<le> v]"
  have rest: "0 \<le> ?rest" by (rule qualifying_nonneg)
  show ?case
  proof (cases "\<exists>v. recentAveragePrice x = Some v \<and> 10000 \<le> v")
    case True
    then obtain v where v: "recentAveragePrice x = Some v" "10000 \<le> v" by blast
    with Cons.prems rest have b: "0 \<le> acc + v" "acc + v + ?rest \<le> 2 ^ 53" by simp_all
    with rest have "\<bar>acc + v\<bar> \<le> 2 ^ 53" by simp
    then have "add_item x acc = acc + v"
      using v by (simp add: add_item_def LIMITED_THRESHOLD_def round_double_exact)
    with Cons.IH[OF b] v show ?thesis by simp
  next
    case False
    then have "add_item x acc = acc"
      by (auto simp: add_item_def LIMITED_THRESHOLD_def split: option.splits)
    moreover from False have "sum_list [v. item \<leftarrow> x # xs,
                  v \<leftarrow> (case recentAveragePrice item of None \<Rightarrow> [] | Some v \<Rightarrow> [v]), 10000 \<le> v] = ?rest"
      by (auto split: option.splits)
    ultimately show ?thesis using Cons.IH[of acc] Cons.prems by simp
  qed
qed

lemma spec_qualifying_total_nonneg: "0 \<le> spec_qualifying_total ps"
proof (induction ps)
  case Nil
  show ?case by (simp add: spec_qualifying_total_def)
next
  case (Cons p ps)
  then show ?case using qualifying_nonneg[of "page_items p"]
    by (simp add: spec_qualifying_total_def)
qed

lemma spec_qualifying_total_Cons:
  "spec_qualifying_total (p # ps) = spec_qualifying_total [p] + spec_qualifying_total ps"
  by (simp add: spec_qualifying_total_def)

lemma fold_page:
  "0 \<le> acc \<Longrightarrow> acc + spec_qualifying_total [p] \<le> 2 ^ 53
   \<Longrightarrow> fold add_item (page_items p) acc = acc + spec_qualifying_total [p]"
  using fold_add_item[of acc "page_items p"] by (simp add: spec_qualifying_total_def)

lemma userRAP_loop_chain:
  assumes "spec_page_chain (inventory_api up uid) [] qs e0"
  shows "spec_page_chain (inventory_api up uid) c ps e \<Longrightarrow> length ps \<le> length qs
     \<Longrightarrow> e \<noteq> Unreachable \<Longrightarrow> 0 \<le> acc \<Longrightarrow> acc + spec_qualifying_total ps \<le> 2 ^ 53 \<Longrightarrow>
     \<exists>log'. userRAP_loop up uid (c, acc) log = Some (Inr (acc + spec_qualifying_total ps), log')"
proof (induction c ps e arbitrary: acc log rule: spec_page_chain.induct)
  case (last_page c code p)
  from fold_page[OF last_page.prems(3,4)] last_page.hyps show ?case
    by (subst userRAP_loop.simps) (simp add: userRAP_turn_def page_items_def)
next
  case (next_page c code p c' ps e)
  have "c' \<noteq> []"
  proof
    assume "c' = []"
    with next_page.hyps assms have "ps = qs" using spec_page_chain_unique by blast
    with next_page.prems show False by simp
  qed
  have tot: "spec_qualifying_total (p # ps) = spec_qualifying_total [p] + spec_qualifying_total ps"
    by (rule spec_qualifying_total_Cons)
  have r: "0 \<le> spec_qualifying_total ps" and r1: "0 \<le> spec_qualifying_total [p]"
    by (rule spec_qualifying_total_nonneg)+
  from next_page.prems(3,4) tot r have "acc + spec_qualifying_total [p] \<le> 2 ^ 53" by simp
  from fold_page[OF next_page.prems(3) this]
  have f: "fold add_item (page_items p) acc = acc + spec_qualifying_total [p]" .
  have "0 \<le> acc + spec_qualifying_total [p]" using next_page.prems(3) r1 by simp
  moreover have "acc + spec_qualifying_total [p] + spec_qualifying_total ps \<le> 2 ^ 53"
    using next_page.prems(4) tot by simp
  ultimately obtain log' where
    "userRAP_loop up uid (c', acc + spec_qualifying_total [p]) (log @ [Collectibles uid 100 c])
       = Some (Inr (acc + spec_qualifying_total [p] + spec_qualifying_total ps), log')"
    using next_page.IH[of "acc + spec_qualifying_total [p]" "log @ [Collectibles uid 100 c]"]
      next_page.prems(1,2) by auto
  with \<open>c' \<noteq> []\<close> f tot next_page.hyps show ?case
    by (subst userRAP_loop.simps) (simp add: userRAP_turn_def page_items_def)
next
  case (non_success c code p)
  then show ?case
    by (subst userRAP_loop.simps) (simp add: userRAP_turn_def spec_qualifying_total_def)
next
  case (unreachable c)
  then show ?case by simp
qed

text \<open>
  Claim C2, as amended. Whatever pages the per-member source returns for a member, as long
  as the sequence ends at a page without a next cursor or at a non-success response, and
  the values are integers whose sum over the values of at least 10000 does not exceed
  \<open>2^53\<close>, \<^verbatim>\<open>fetchUserRAP\<close> returns, and its result is exactly the sum of the values that
  are at least 10000 on those pages; smaller values and items without a value add
  nothing.
\<close>

theorem fetchUserRAP_sums_qualifying_values:
  assumes "spec_page_chain (inventory_api up uid) [] ps e" and "e \<noteq> Unreachable"
    and "spec_qualifying_total ps \<le> 2 ^ 53"
  shows "\<exists>log'. fetchUserRAP up uid log = Some (Inr (spec_qualifying_total ps), log')"
  using userRAP_loop_chain[OF assms(1) assms(1) _ assms(2), of 0 log] assms(3)
  by (simp add: fetchUserRAP_def)

lemma demo_inventory_chain:
  "spec_page_chain (inventory_api demo_upstream 2) []
     [\<lparr>data = Some [\<lparr>recentAveragePrice = Some 5000\<rparr>], nextPageCursor = Some ''i2''\<rparr>,
      \<lparr>data = Some [\<lparr>recentAveragePrice = Some 12000\<rparr>, \<lparr>recentAveragePrice = None\<rparr>],
                           nextPageCursor = None\<rparr>] LastPage"
  apply (rule next_page[where code=200 and c'="''i2''"])
    apply (simp add: demo_upstream_def demo_inventory_def)
   apply simp
  apply (rule last_page[where code=200])
   apply (simp add: demo_upstream_def demo_inventory_def)
  apply simp
  done

theorem fetchUserRAP_sums_qualifying_values_witness:
  "spec_page_chain (inventory_api demo_upstream 2) []
     [\<lparr>data = Some [\<lparr>recentAveragePrice = Some 5000\<rparr>], nextPageCursor = Some ''i2''\<rparr>,
      \<lparr>data = Some [\<lparr>recentAveragePrice = Some 12000\<rparr>, \<lparr>recentAveragePrice = None\<rparr>],
                           nextPageCursor = None\<rparr>] LastPage
   \<and> LastPage \<noteq> Unreachable
   \<and> spec_qualifying_total
        [\<lparr>data = Some [\<lparr>recentAveragePrice = Some 5000\<rparr>], nextPageCursor = Some ''i2''\<rparr>,
         \<lparr>data = Some [\<lparr>recentAveragePrice = Some 12000\<rparr>, \<lparr>recentAveragePrice = None\<rparr>],
                           nextPageCursor = None\<rparr>] \<le> 2 ^ 53
   \<and> (\<exists>log'. fetchUserRAP demo_upstream 2 [] = Some (Inr 12000, log'))"
proof -
  have t: "spec_qualifying_total
        [\<lparr>data = Some [\<lparr>recentAveragePrice = Some 5000\<rparr>], nextPageCursor = Some ''i2''\<rparr>,
         \<lparr>data = Some [\<lparr>recentAveragePrice = Some 12000\<rparr>, \<lparr>recentAveragePrice = None\<rparr>],
                           nextPageCursor = None\<rparr>] = 12000"
    by (simp add: spec_qualifying_total_def page_items_def)
  then have b: "spec_qualifying_total
        [\<lparr>data = Some [\<lparr>recentAveragePrice = Some 5000\<rparr>], nextPageCursor = Some ''i2''\<rparr>,
         \<lparr>data = Some [\<lparr>recentAveragePrice = Some 12000\<rparr>, \<lparr>recentAveragePrice = None\<rparr>],
                           nextPageCursor = None\<rparr>] \<le> 2 ^ 53"
    by simp
  have n: "LastPage \<noteq> Unreachable" by simp
  from fetchUserRAP_sums_qualifying_values[OF demo_inventory_chain n b, of "[]"] t
  have "\<exists>log'. fetchUserRAP demo_upstream 2 [] = Some (Inr 12000, log')" by simp
  with demo_inventory_chain b show ?thesis by simp
qed

text \<open>
  Without the bound the sum is not exact: for the values \<open>2^53\<close> and 10001 the exact sum
  is 9007199254750993, which is not a double, and \<^verbatim>\<open>fetchUserRAP\<close> returns
  9007199254750992.
\<close>

lemma large_chain: "spec_page_chain (inventory_api large_upstream 3) [] [large_page] LastPage"
  by (rule last_page[where code=200]) (simp_all add: large_upstream_def large_page_def)

theorem fetchUserRAP_rounds_large_sums:
  "spec_page_chain (inventory_api large_upstream 3) [] [large_page] LastPage
   \<and> spec_qualifying_total [large_page] = 9007199254750993
   \<and> fetchUserRAP large_upstream 3 [] = Some (Inr 9007199254750992, [Collectibles 3 100 []])"
proof -
  have "spec_qualifying_total [large_page] = 9007199254750993"
    by (simp add: spec_qualifying_total_def page_items_def large_page_def)
  moreover have "fetchUserRAP large_upstream 3 [] = Some (Inr 9007199254750992, [Collectibles 3 100 []])"
    unfolding fetchUserRAP_def
    by (subst userRAP_loop.simps)
       (simp add: userRAP_turn_def large_upstream_def large_page_def add_item_def
          LIMITED_THRESHOLD_def round_double_def bit_length_numeral Let_def)
  ultimately show ?thesis using large_chain by simp
qed

subsection \<open>The roster\<close>

lemma member_copy:
  "(\<lambda>entry. \<lparr>userId = userId (user entry), username = username (user entry)\<rparr>) = user"
  by (rule ext) simp

lemma members_loop_chain:
  assumes "spec_page_chain (groups_api up cid) [] qs e0"
  shows "spec_page_chain (groups_api up cid) c ps e \<Longrightarrow> length ps \<le> length qs \<Longrightarrow> e = LastPage \<Longrightarrow>
     \<exists>log'. members_loop up cid (c, acc) log = Some (Inr (acc @ concat (map page_members ps)), log')"
proof (induction c ps e arbitrary: acc log rule: spec_page_chain.induct)
  case (last_page c code p)
  then show ?case
    by (subst members_loop.simps) (simp add: members_turn_def page_members_def page_items_def member_copy)
next
  case (next_page c code p c' ps e)
  have "c' \<noteq> []"
  proof
    assume "c' = []"
    with next_page.hyps assms have "ps = qs" using spec_page_chain_unique by blast
    with next_page.prems show False by simp
  qed
  moreover obtain log' where "members_loop up cid (c', acc @ page_members p) (log @ [GroupUsers cid 100 c])
       = Some (Inr ((acc @ page_members p) @ concat (map page_members ps)), log')"
    using next_page.IH[of "acc @ page_members p" "log @ [GroupUsers cid 100 c]"] next_page.prems by auto
  ultimately show ?case using next_page.hyps
    by (subst members_loop.simps) (simp add: members_turn_def page_members_def page_items_def member_copy)
qed simp_all

text \<open>
  Claim C5. When the roster source yields a finite chain of pages from the empty cursor,
  each page's next cursor leading to the next page and the last page naming none,
  \<^verbatim>\<open>fetchAllMembers\<close> returns the members of all pages, concatenated in page order.
\<close>

theorem fetchAllMembers_concatenates_pages:
  assumes "spec_page_chain (groups_api up communityId) [] ps LastPage"
  shows "\<exists>log'. fetchAllMembers up communityId log = Some (Inr (concat (map page_members ps)), log')"
  using members_loop_chain[OF assms assms, of "[]" log]
  by (simp add: fetchAllMembers_def)

lemma demo_roster_chain:
  "spec_page_chain (groups_api demo_upstream (IdStr ''7'')) []
     [\<lparr>data = Some [\<lparr>user = \<lparr>userId = 1, username = ''A''\<rparr>\<rparr>], nextPageCursor = Some ''r2''\<rparr>,
      \<lparr>data = Some [\<lparr>user = \<lparr>userId = 2, username = ''B''\<rparr>\<rparr>], nextPageCursor = None\<rparr>] LastPage"
  apply (rule next_page[where code=200 and c'="''r2''"])
    apply (simp add: demo_upstream_def demo_roster_def)
   apply simp
  apply (rule last_page[where code=200])
   apply (simp add: demo_upstream_def demo_roster_def)
  apply simp
  done

theorem fetchAllMembers_concatenates_pages_witness:
  "spec_page_chain (groups_api demo_upstream (IdStr ''7'')) []
     [\<lparr>data = Some [\<lparr>user = \<lparr>userId = 1, username = ''A''\<rparr>\<rparr>], nextPageCursor = Some ''r2''\<rparr>,
      \<lparr>data = Some [\<lparr>user = \<lparr>userId = 2, username = ''B''\<rparr>\<rparr>], nextPageCursor = None\<rparr>] LastPage
   \<and> (\<exists>log'. fetchAllMembers demo_upstream (IdStr ''7'') [] =
          Some (Inr [\<lparr>userId = 1, username = ''A''\<rparr>, \<lparr>userId = 2, username = ''B''\<rparr>], log'))"
  using fetchAllMembers_concatenates_pages[OF demo_roster_chain, of "[]"] demo_roster_chain
  by (simp add: page_members_def page_items_def)

lemma members_loop_chain_failed:
  assumes "spec_page_chain (groups_api up cid) [] qs e0"
  shows "spec_page_chain (groups_api up cid) c ps e \<Longrightarrow> length ps \<le> length qs \<Longrightarrow> e = NonSuccess code \<Longrightarrow>
     \<exists>log'. members_loop up cid (c, acc) log = Some (Inl (FailedToFetchMembers code), log')"
proof (induction c ps e arbitrary: acc log rule: spec_page_chain.induct)
  case (next_page c code' p c' ps e)
  have "c' \<noteq> []"
  proof
    assume "c' = []"
    with next_page.hyps assms have "ps = qs" using spec_page_chain_unique by blast
    with next_page.prems show False by simp
  qed
  moreover obtain log' where "members_loop up cid (c', acc @ page_members p) (log @ [GroupUsers cid 100 c])
       = Some (Inl (FailedToFetchMembers code), log')"
    using next_page.IH[of "acc @ page_members p" "log @ [GroupUsers cid 100 c]"] next_page.prems by auto
  ultimately show ?case using next_page.hyps
    by (subst members_loop.simps) (simp add: members_turn_def page_members_def page_items_def member_copy)
next
  case (non_success c code' p)
  then show ?case
    by (subst members_loop.simps) (simp add: members_turn_def)
qed simp_all


section \<open>Properties of the executor\<close>

lemma fulfilled_dom: "fulfilled (m j) \<Longrightarrow> j \<in> dom m"
  by (cases "m j") auto

lemma fulfilled_iff: "fulfilled x \<longleftrightarrow> (\<exists>v. x = Some (Fulfilled v))"
  by (cases x rule: fulfilled.cases) auto

lemma collect_values:
  "collect m js = Some rs \<Longrightarrow>
     length rs = length js \<and> (\<forall>i < length js. m (js ! i) = Some (Fulfilled (rs ! i)))"
proof (induction js arbitrary: rs)
  case Nil
  then show ?case by simp
next
  case (Cons j js)
  from Cons.prems obtain v vs where v: "m j = Some (Fulfilled v)" and vs: "collect m js = Some vs"
    and rs: "rs = v # vs"
    by (auto split: option.splits settle.splits)
  from Cons.IH[OF vs] v rs show ?case by (auto simp: nth_Cons split: nat.splits)
qed

lemma collect_fulfilled:
  "\<forall>j \<in> set js. fulfilled (m j) \<Longrightarrow> \<exists>rs. collect m js = Some rs"
  by (induction js) (auto simp: fulfilled_iff)

lemma admit_simps [simp]:
  "pos (admit K array s) = pos s + 1"
  "ret (admit K array s) = ret s @ [pos s]"
  "queued (admit K array s) = queued s @ [pos s]"
  "calls (admit K array s) = calls s"
  "running (admit K array s) = running s"
  "settled (admit K array s) = settled s"
  "store (admit K array s) = store s"
  "executing (admit K array s) = (if K \<le> length array then executing s @ [pos s] else executing s)"
  "control (admit K array s) =
     (if K \<le> length array then
        (if length (executing s @ [pos s]) \<ge> K then AwaitRace (executing s @ [pos s]) else InLoop)
      else control s)"
  by (simp_all add: admit_def Let_def)

lemma invoke_simps [simp]:
  "pos (invoke array f j s) = pos s"
  "ret (invoke array f j s) = ret s"
  "queued (invoke array f j s) = tl (queued s)"
  "calls (invoke array f j s) = calls s @ [(j, array ! j, indexOf array (array ! j))]"
  "running (invoke array f j s) = (running s)(j \<mapsto> start f (array ! j) (indexOf array (array ! j)))"
  "settled (invoke array f j s) = settled s"
  "store (invoke array f j s) = store s"
  "executing (invoke array f j s) = executing s"
  "control (invoke array f j s) = control s"
  by (simp_all add: invoke_def Let_def)

lemma advance_simps [simp]:
  "pos (advance f j t s) = pos s"
  "ret (advance f j t s) = ret s"
  "queued (advance f j t s) = queued s"
  "calls (advance f j t s) = calls s"
  "executing (advance f j t s) = executing s"
  "control (advance f j t s) = control s"
  "store (advance f j t s) = snd (resume f t (store s))"
  by (simp_all add: advance_def split: prod.splits turn.splits)

lemma advance_running:
  "running (advance f j t s) =
     (case fst (resume f t (store s)) of Again t' \<Rightarrow> (running s)(j \<mapsto> t') | _ \<Rightarrow> (running s)(j := None))"
  by (simp add: advance_def split: prod.splits turn.splits)

lemma advance_settled:
  "settled (advance f j t s) =
     (case fst (resume f t (store s)) of Again t' \<Rightarrow> settled s
        | Leave v \<Rightarrow> (settled s)(j \<mapsto> Fulfilled v)
        | Throw err \<Rightarrow> (settled s)(j \<mapsto> RejectedWith err))"
  by (simp add: advance_def split: prod.splits turn.splits)

lemma inv_loop_step:
  "asyncPool_step K array f s s' \<Longrightarrow> inv_loop array s \<Longrightarrow> inv_loop array s'"
  by (induction rule: asyncPool_step.induct) (auto simp: inv_loop_def)

lemma inv_phase_step:
  "asyncPool_step K array f s s' \<Longrightarrow> inv_phase s \<Longrightarrow> inv_phase s'"
proof (induction rule: asyncPool_step.induct)
  case (loop_turn s)
  then show ?case by (auto simp: inv_phase_def lessThan_Suc)
next
  case (job s j q)
  then show ?case by (auto simp: inv_phase_def)
next
  case (task s j t)
  then show ?case
    by (cases "fst (resume f t (store s))") (auto simp: inv_phase_def advance_running advance_settled)
qed (auto simp: inv_phase_def)


lemma inv_calls_step:
  "asyncPool_step K array f s s' \<Longrightarrow> inv_phase s \<Longrightarrow> inv_calls array s \<Longrightarrow> inv_calls array s'"
proof (induction rule: asyncPool_step.induct)
  case (job s j q)
  then have "j \<notin> dom (running s) \<union> dom (settled s)"
    by (auto simp: inv_phase_def)
  with job show ?case by (auto simp: inv_calls_def)
next
  case (task s j t)
  then show ?case
    by (cases "fst (resume f t (store s))") (auto simp: inv_calls_def advance_running advance_settled)
qed (auto simp: inv_calls_def)

lemma inv_exec_step:
  assumes "asyncPool_step K array f s s'" and "K \<le> length array" and "1 \<le> K"
    and "inv_phase s" and "inv_exec K s"
  shows "inv_exec K s'"
  using assms
proof (induction rule: asyncPool_step.induct)
  case (loop_turn s)
  then show ?case by (auto simp: inv_exec_def less_Suc_eq)
next
  case (loop_exit s)
  then show ?case by (auto simp: inv_exec_def)
next
  case (job s j q)
  then show ?case by (auto simp: inv_exec_def)
next
  case (task s j t)
  have keep: "fulfilled (settled s i) \<Longrightarrow> fulfilled (settled (advance f j t s) i)" for i
  proof -
    assume a: "fulfilled (settled s i)"
    then have "i \<in> dom (settled s)" by (rule fulfilled_dom)
    with task have "i \<noteq> j" by (auto simp: inv_phase_def)
    with a show ?thesis
      by (cases "fst (resume f t (store s))") (auto simp: advance_settled)
  qed
  with task show ?case by (auto simp: inv_exec_def)
next
  case (splice s j)
  then show ?case
    by (auto simp: inv_exec_def length_remove1 dest: notin_set_remove1 le_imp_diff_is_add)
next
  case (race_fulfilled s snap j)
  then have "distinct snap" "set (executing s) \<subseteq> set snap" "length snap \<le> K" "distinct (executing s)"
    by (auto simp: inv_exec_def)
  with race_fulfilled have "set (executing s) \<subset> set snap" by auto
  then have "card (set (executing s)) < card (set snap)"
    by (simp add: psubset_card_mono)
  with \<open>distinct snap\<close> \<open>distinct (executing s)\<close> \<open>length snap \<le> K\<close> have "length (executing s) < K"
    by (simp add: distinct_card)
  with race_fulfilled show ?case by (auto simp: inv_exec_def)
next
  case (race_rejected s snap j err)
  then show ?case by (auto simp: inv_exec_def)
next
  case (all_fulfilled s)
  then show ?case by (auto simp: inv_exec_def)
next
  case (all_rejected s j err)
  then show ?case by (auto simp: inv_exec_def)
qed

lemma inv_result_step:
  "asyncPool_step K array f s s' \<Longrightarrow> inv_loop array s \<Longrightarrow> inv_phase s \<Longrightarrow> inv_result array s
     \<Longrightarrow> inv_result array s'"
proof (induction rule: asyncPool_step.induct)
  case (task s j t)
  show ?case unfolding inv_result_def
  proof (intro allI impI)
    fix rs assume "control (advance f j t s) = Resolved rs"
    then have c: "control s = Resolved rs" by simp
    with task have all: "\<forall>i < length array. settled s i = Some (Fulfilled (rs ! i))"
      and "pos s = length array"
      by (auto simp: inv_result_def inv_loop_def)
    have "j \<notin> dom (settled s)" using task by (auto simp: inv_phase_def)
    moreover have "j < pos s" using task by (auto simp: inv_phase_def)
    ultimately have False using all \<open>pos s = length array\<close> by auto
    then show "length rs = length array \<and>
               (\<forall>j' < length array. settled (advance f j t s) j' = Some (Fulfilled (rs ! j')))" ..
  qed
next
  case (all_fulfilled s rs)
  then have "ret s = [0..<length array]" by (simp add: inv_loop_def)
  with collect_values[OF all_fulfilled.hyps(2)] show ?case by (simp add: inv_result_def)
qed (auto simp: inv_result_def)

lemma inv_init:
  "inv_loop array (asyncPool_init st)" "inv_phase (asyncPool_init st)" "inv_calls array (asyncPool_init st)"
  "1 \<le> K \<Longrightarrow> inv_exec K (asyncPool_init st)" "inv_result array (asyncPool_init st)"
  by (simp_all add: asyncPool_init_def inv_loop_def inv_phase_def inv_calls_def inv_exec_def inv_result_def)

lemma asyncPool_reach_inv:
  assumes "asyncPool_reach K array f st s"
  shows "inv_loop array s \<and> inv_phase s \<and> inv_calls array s \<and> inv_result array s
         \<and> (1 \<le> K \<longrightarrow> K \<le> length array \<longrightarrow> inv_exec K s)"
  using assms unfolding asyncPool_reach_def
proof (induction rule: rtranclp_induct)
  case base
  show ?case by (simp add: inv_init)
next
  case (step s s')
  note st = step.hyps(2)
  from step.IH have a: "inv_loop array s" and b: "inv_phase s" and c: "inv_calls array s"
    and d: "inv_result array s" and e: "1 \<le> K \<longrightarrow> K \<le> length array \<longrightarrow> inv_exec K s"
    by simp_all
  have "1 \<le> K \<longrightarrow> K \<le> length array \<longrightarrow> inv_exec K s'"
    using inv_exec_step[OF st _ _ b] e by simp
  then show ?case
    using inv_loop_step[OF st a] inv_phase_step[OF st b] inv_calls_step[OF st b c]
      inv_result_step[OF st a b d]
    by simp
qed

lemma inv_race_step:
  "asyncPool_step K array f s s' \<Longrightarrow> inv_race s \<Longrightarrow> inv_race s'"
proof (induction rule: asyncPool_step.induct)
  case (loop_turn s)
  then show ?case by (auto simp: inv_race_def less_Suc_eq)
next
  case (splice s j)
  then show ?case by (auto simp: inv_race_def dest: notin_set_remove1)
qed (auto simp: inv_race_def)

lemma inv_fulfil_step:
  "asyncPool_step K array f s s' \<Longrightarrow> never_throws f \<Longrightarrow> inv_fulfil s \<Longrightarrow> inv_fulfil s'"
proof (induction rule: asyncPool_step.induct)
  case (task s j t)
  then have "\<And>err. fst (resume f t (store s)) \<noteq> Throw err" by (simp add: never_throws_def)
  with task show ?case
    by (cases "fst (resume f t (store s))") (auto simp: inv_fulfil_def advance_settled)
next
  case (loop_turn s)
  then show ?case by (auto simp: inv_fulfil_def)
qed (auto simp: inv_fulfil_def)

lemma asyncPool_reach_race:
  "asyncPool_reach K array f st s \<Longrightarrow> inv_race s"
  unfolding asyncPool_reach_def
proof (induction rule: rtranclp_induct)
  case base
  show ?case by (simp add: inv_race_def asyncPool_init_def)
next
  case (step s s')
  then show ?case using inv_race_step by blast
qed

lemma asyncPool_reach_fulfil:
  "asyncPool_reach K array f st s \<Longrightarrow> never_throws f \<Longrightarrow> inv_fulfil s"
  unfolding asyncPool_reach_def
proof (induction rule: rtranclp_induct)
  case base
  show ?case by (simp add: inv_fulfil_def asyncPool_init_def)
next
  case (step s s')
  then show ?case using inv_fulfil_step by blast
qed

lemma in_flight_bound:
  assumes "1 \<le> K" and "asyncPool_reach K array f st s"
  shows "card (in_flight s) \<le> K"
proof -
  from asyncPool_reach_inv[OF assms(2)] have lp: "inv_loop array s" and ph: "inv_phase s"
    and ex: "K \<le> length array \<Longrightarrow> inv_exec K s"
    using assms(1) by simp_all
  have sub: "dom (running s) \<subseteq> {..<pos s}" using ph by (auto simp: inv_phase_def)
  show ?thesis
  proof (cases "K \<le> length array")
    case True
    have "dom (running s) \<subseteq> set (executing s)"
    proof
      fix j assume j: "j \<in> dom (running s)"
      with ph have "j \<notin> dom (settled s)" by (auto simp: inv_phase_def)
      then have "\<not> fulfilled (settled s j)" using fulfilled_dom by metis
      moreover from j sub have "j < pos s" by auto
      ultimately show "j \<in> set (executing s)" using ex[OF True] by (auto simp: inv_exec_def)
    qed
    then have "card (dom (running s)) \<le> card (set (executing s))"
      using card_mono[of "set (executing s)" "dom (running s)"] by simp
    also have "\<dots> \<le> length (executing s)" by (rule card_length)
    also have "\<dots> \<le> K" using ex[OF True] by (simp add: inv_exec_def)
    finally show ?thesis by (simp add: in_flight_def)
  next
    case False
    from sub have "card (dom (running s)) \<le> card {..<pos s}"
      using card_mono[of "{..<pos s}" "dom (running s)"] by simp
    also have "\<dots> \<le> length array" using lp by (simp add: inv_loop_def)
    finally show ?thesis using False by (simp add: in_flight_def)
  qed
qed

lemma started_once:
  assumes "asyncPool_reach K array f st s"
  shows "distinct (started s) \<and> set (started s) \<subseteq> {..<length array}
         \<and> (\<forall>c \<in> set (calls s). fst (snd c) = array ! fst c)"
proof -
  from asyncPool_reach_inv[OF assms] have lp: "inv_loop array s" and ph: "inv_phase s"
    and ca: "inv_calls array s" by simp_all
  from ca have "distinct (started s)" by (simp add: inv_calls_def started_def)
  moreover have "set (started s) \<subseteq> {..<length array}"
  proof -
    from ca have "set (started s) = dom (running s) \<union> dom (settled s)"
      by (simp add: inv_calls_def started_def)
    also from ph have "\<dots> \<subseteq> {..<pos s}" by (auto simp: inv_phase_def)
    also from lp have "\<dots> \<subseteq> {..<length array}" by (simp add: inv_loop_def)
    finally show ?thesis .
  qed
  moreover have "\<forall>c \<in> set (calls s). fst (snd c) = array ! fst c"
  proof
    fix c assume "c \<in> set (calls s)"
    with ca have "c = (fst c, array ! fst c, indexOf array (array ! fst c))"
      by (simp add: inv_calls_def)
    then show "fst (snd c) = array ! fst c" by (metis fst_conv snd_conv)
  qed
  ultimately show ?thesis by simp
qed

lemma resolved_all_done:
  assumes "asyncPool_reach K array f st s" and "control s = Resolved rs"
  shows "set (started s) = {..<length array} \<and> in_flight s = {} \<and> queued s = []
         \<and> (\<forall>j < length array. fulfilled (settled s j))"
proof -
  from asyncPool_reach_inv[OF assms(1)] have lp: "inv_loop array s" and ph: "inv_phase s"
    and ca: "inv_calls array s" and re: "inv_result array s" by simp_all
  from lp assms(2) have n: "pos s = length array" by (simp add: inv_loop_def)
  from re assms(2) have ful: "\<forall>j < length array. fulfilled (settled s j)"
    by (simp add: inv_result_def fulfilled_iff)
  have sub: "{..<length array} \<subseteq> dom (settled s)"
  proof
    fix j assume "j \<in> {..<length array}"
    with ful have "fulfilled (settled s j)" by simp
    then show "j \<in> dom (settled s)" by (rule fulfilled_dom)
  qed
  from ph n have u:
    "set (queued s) \<union> dom (running s) \<union> dom (settled s) = {..<length array}"
    and qs: "set (queued s) \<inter> dom (settled s) = {}"
    and rs: "dom (running s) \<inter> dom (settled s) = {}"
    by (simp_all add: inv_phase_def)
  from u have "dom (settled s) \<subseteq> {..<length array}" by blast
  from this sub have d1: "dom (settled s) = {..<length array}" by (rule equalityI)
  have d2: "dom (running s) = {}"
  proof (rule ccontr)
    assume "dom (running s) \<noteq> {}"
    then obtain j where j: "j \<in> dom (running s)" by blast
    with u have "j \<in> {..<length array}" by blast
    with d1 j rs show False by blast
  qed
  have d3: "set (queued s) = {}"
  proof (rule ccontr)
    assume "set (queued s) \<noteq> {}"
    then obtain j where j: "j \<in> set (queued s)" by (cases "queued s") auto
    with u have "j \<in> {..<length array}" by blast
    with d1 j qs show False by blast
  qed
  note d = d1 d2 d3

  with ca have "set (started s) = {..<length array}" by (simp add: inv_calls_def started_def)
  with d ful show ?thesis by (simp add: in_flight_def)
qed

lemma rest_resolved:
  assumes "asyncPool_reach K array f st s" and "never_throws f" and "at_rest K array f s"
  shows "\<exists>rs. control s = Resolved rs"
proof -
  from asyncPool_reach_inv[OF assms(1)] have lp: "inv_loop array s" and ph: "inv_phase s" by simp_all
  note ra = asyncPool_reach_race[OF assms(1)]
  note fu = asyncPool_reach_fulfil[OF assms(1,2)]
  from assms(3) have no: "\<And>s'. \<not> asyncPool_step K array f s s'" by (simp add: at_rest_def)
  have q: "control s \<noteq> InLoop \<Longrightarrow> queued s = []"
  proof (rule ccontr)
    assume c: "control s \<noteq> InLoop" and "queued s \<noteq> []"
    then obtain j q where "queued s = j # q" by (cases "queued s") auto
    from job[OF c this] no show False by blast
  qed
  have r: "control s \<noteq> InLoop \<Longrightarrow> running s = Map.empty"
  proof (rule ccontr)
    assume c: "control s \<noteq> InLoop" and "running s \<noteq> Map.empty"
    then obtain j t where "running s j = Some t" by fastforce
    from task[OF c this] no show False by blast
  qed
  have fin: "control s \<noteq> InLoop \<Longrightarrow> j < pos s \<Longrightarrow> fulfilled (settled s j)" for j
  proof -
    assume c: "control s \<noteq> InLoop" and j: "j < pos s"
    with ph q[OF c] r[OF c] have "j \<in> dom (settled s)" by (auto simp: inv_phase_def)
    then obtain x where x: "settled s j = Some x" by auto
    with fu show ?thesis by (cases x) (auto simp: inv_fulfil_def)
  qed
  show ?thesis
  proof (cases "control s")
    case InLoop
    from lp have "pos s < length array \<or> pos s = length array" by (auto simp: inv_loop_def)
    with loop_turn[OF InLoop] loop_exit[OF InLoop] no show ?thesis by blast
  next
    case (AwaitRace snap)
    with ra obtain j where j: "j \<in> set snap" "j < pos s"
      by (cases snap) (auto simp: inv_race_def)
    from AwaitRace have c: "control s \<noteq> InLoop" by simp
    show ?thesis
    proof (cases "j \<in> set (executing s)")
      case True
      from splice[OF c True fin[OF c j(2)]] no show ?thesis by blast
    next
      case False
      from race_fulfilled[OF AwaitRace j(1) False] no show ?thesis by blast
    qed
  next
    case AwaitAll
    then have c: "control s \<noteq> InLoop" by simp
    from lp have "ret s = [0..<pos s]" by (simp add: inv_loop_def)
    with fin[OF c] have "\<forall>j \<in> set (ret s). fulfilled (settled s j)" by simp
    from collect_fulfilled[OF this] obtain rs where "collect (settled s) (ret s) = Some rs" ..
    from all_fulfilled[OF AwaitAll this] no show ?thesis by blast
  next
    case (Resolved rs)
    then show ?thesis by simp
  next
    case (Failed err)
    with fu show ?thesis by (simp add: inv_fulfil_def)
  qed
qed


subsection \<open>Termination\<close>

lemma reach_step:
  "asyncPool_reach K array f st s \<Longrightarrow> asyncPool_step K array f s s' \<Longrightarrow> asyncPool_reach K array f st s'"
  unfolding asyncPool_reach_def by (rule rtranclp.rtrancl_into_rtrancl)

lemma reach_init: "asyncPool_reach K array f st (asyncPool_init st)"
  unfolding asyncPool_reach_def by (rule rtranclp.rtrancl_refl)

lemma sum_one_changed:
  fixes w w' :: "nat \<Rightarrow> nat"
  assumes "j0 < n" and "\<And>j. j < n \<Longrightarrow> j \<noteq> j0 \<Longrightarrow> w' j = w j"
  shows "(\<Sum>j < n. w' j) + w j0 = (\<Sum>j < n. w j) + w' j0"
proof -
  have fin: "finite {..<n}" and mem: "j0 \<in> {..<n}" using assms(1) by simp_all
  have "(\<Sum>j \<in> {..<n} - {j0}. w' j) = (\<Sum>j \<in> {..<n} - {j0}. w j)"
    by (rule sum.cong) (use assms(2) in auto)
  then show ?thesis
    using sum.remove[OF fin mem, of w] sum.remove[OF fin mem, of w'] by simp
qed

lemma sum_unchanged:
  fixes w w' :: "nat \<Rightarrow> nat"
  assumes "\<And>j. j < n \<Longrightarrow> w' j = w j"
  shows "(\<Sum>j < n. w' j) = (\<Sum>j < n. w j)"
  by (rule sum.cong) (use assms in auto)

lemma measure_step:
  assumes "asyncPool_step K array f s s'" and "inv_loop array s" and "inv_phase s"
    and "task_bound f m"
  shows "pool_measure array f m s' < pool_measure array f m s"
  using assms
proof (induction rule: asyncPool_step.induct)
  case (loop_turn s)
  let ?j0 = "pos s"
  have oth: "weight array f m (admit K array s) j = weight array f m s j"
    if "j < length array" "j \<noteq> ?j0" for j
    using that by (auto simp: weight_def Let_def)
  from loop_turn have "?j0 \<notin> set (queued s)" by (auto simp: inv_phase_def)
  have w0: "weight array f m s ?j0 = m (start f (array ! ?j0) (indexOf array (array ! ?j0))) + 5"
    by (simp add: weight_def Let_def)
  have w1: "weight array f m (admit K array s) ?j0
            = m (start f (array ! ?j0) (indexOf array (array ! ?j0))) + 2"
    by (simp add: weight_def Let_def)
  from sum_one_changed[OF loop_turn.hyps(2), of "weight array f m (admit K array s)" "weight array f m s"] oth
  have "(\<Sum>j < length array. weight array f m (admit K array s) j) + weight array f m s ?j0
       = (\<Sum>j < length array. weight array f m s j) + weight array f m (admit K array s) ?j0"
    by blast
  with w0 w1 loop_turn.hyps(1) show ?case
    by (simp add: pool_measure_def)
next
  case (loop_exit s)
  have "(\<Sum>j < length array. weight array f m (s\<lparr>control := AwaitAll\<rparr>) j)
        = (\<Sum>j < length array. weight array f m s j)"
    by (rule sum_unchanged) (simp add: weight_def Let_def)
  with loop_exit show ?case by (simp add: pool_measure_def)
next
  case (job s j0 q)
  from job have d: "j0 \<notin> set q" and lt: "j0 < pos s" and "pos s \<le> length array"
    by (auto simp: inv_phase_def inv_loop_def)
  then have n: "j0 < length array" by simp
  have oth: "weight array f m (invoke array f j0 s) j = weight array f m s j"
    if "j < length array" "j \<noteq> j0" for j
    using that job.hyps(2) by (auto simp: weight_def Let_def)
  have w0: "weight array f m s j0 = m (start f (array ! j0) (indexOf array (array ! j0))) + 2"
    using lt job.hyps(2) by (simp add: weight_def Let_def)
  have w1: "weight array f m (invoke array f j0 s) j0
            = m (start f (array ! j0) (indexOf array (array ! j0))) + 1"
    using lt d job.hyps(2) by (simp add: weight_def Let_def)
  from sum_one_changed[OF n, of "weight array f m (invoke array f j0 s)" "weight array f m s"] oth
  have "(\<Sum>j < length array. weight array f m (invoke array f j0 s) j) + weight array f m s j0
       = (\<Sum>j < length array. weight array f m s j) + weight array f m (invoke array f j0 s) j0"
    by blast
  with w0 w1 show ?case by (simp add: pool_measure_def)
next
  case (task s j0 t)
  from task have nq: "j0 \<notin> set (queued s)" and lt: "j0 < pos s" and "pos s \<le> length array"
    by (auto simp: inv_phase_def inv_loop_def)
  then have n: "j0 < length array" by simp
  have oth: "weight array f m (advance f j0 t s) j = weight array f m s j"
    if "j < length array" "j \<noteq> j0" for j
    using that by (cases "fst (resume f t (store s))") (auto simp: weight_def Let_def advance_running)
  have w0: "weight array f m s j0 = m t + 1"
    using lt nq task.hyps(2) by (simp add: weight_def Let_def)
  have w1: "weight array f m (advance f j0 t s) j0 < m t + 1"
  proof (cases "fst (resume f t (store s))")
    case (Again t')
    from task.prems(3) have
      "case fst (resume f t (store s)) of Again t' \<Rightarrow> m t' < m t | _ \<Rightarrow> True"
      unfolding task_bound_def by blast
    with Again have "m t' < m t" by simp
    with Again lt nq show ?thesis by (simp add: weight_def Let_def advance_running)
  next
    case (Leave v)
    with lt nq show ?thesis by (simp add: weight_def Let_def advance_running)
  next
    case (Throw err)
    with lt nq show ?thesis by (simp add: weight_def Let_def advance_running)
  qed
  from sum_one_changed[OF n, of "weight array f m (advance f j0 t s)" "weight array f m s"] oth
  have "(\<Sum>j < length array. weight array f m (advance f j0 t s) j) + weight array f m s j0
       = (\<Sum>j < length array. weight array f m s j) + weight array f m (advance f j0 t s) j0"
    by blast
  with w0 w1 show ?case by (simp add: pool_measure_def)
next
  case (splice s j)
  have "(\<Sum>i < length array. weight array f m (s\<lparr>executing := remove1 j (executing s)\<rparr>) i)
        = (\<Sum>i < length array. weight array f m s i)"
    by (rule sum_unchanged) (simp add: weight_def Let_def)
  moreover from splice.hyps(2) have "0 < length (executing s)"
    by (rule length_pos_if_in_set)
  with splice.hyps(2) have "length (remove1 j (executing s)) < length (executing s)"
    by (simp add: length_remove1)
  ultimately show ?case by (simp add: pool_measure_def)
next
  case (race_fulfilled s snap j)
  have "(\<Sum>i < length array. weight array f m (s\<lparr>control := InLoop\<rparr>) i)
        = (\<Sum>i < length array. weight array f m s i)"
    by (rule sum_unchanged) (simp add: weight_def Let_def)
  with race_fulfilled show ?case by (simp add: pool_measure_def)
next
  case (race_rejected s snap j err)
  have "(\<Sum>i < length array. weight array f m (s\<lparr>control := Failed err\<rparr>) i)
        = (\<Sum>i < length array. weight array f m s i)"
    by (rule sum_unchanged) (simp add: weight_def Let_def)
  with race_rejected show ?case by (simp add: pool_measure_def)
next
  case (all_fulfilled s rs)
  have "(\<Sum>i < length array. weight array f m (s\<lparr>control := Resolved rs\<rparr>) i)
        = (\<Sum>i < length array. weight array f m s i)"
    by (rule sum_unchanged) (simp add: weight_def Let_def)
  with all_fulfilled show ?case by (simp add: pool_measure_def)
next
  case (all_rejected s j err)
  have "(\<Sum>i < length array. weight array f m (s\<lparr>control := Failed err\<rparr>) i)
        = (\<Sum>i < length array. weight array f m s i)"
    by (rule sum_unchanged) (simp add: weight_def Let_def)
  with all_rejected show ?case by (simp add: pool_measure_def)
qed


lemma reach_trans:
  "asyncPool_reach K array f st s \<Longrightarrow> rtranclp (asyncPool_step K array f) s s' \<Longrightarrow> asyncPool_reach K array f st s'"
  unfolding asyncPool_reach_def by (rule rtranclp_trans)

lemma comes_to_rest:
  assumes "task_bound f m"
  shows "asyncPool_reach K array f st s \<Longrightarrow>
         \<exists>s'. rtranclp (asyncPool_step K array f) s s' \<and> at_rest K array f s'"
proof (induction "pool_measure array f m s" arbitrary: s rule: less_induct)
  case less
  show ?case
  proof (cases "at_rest K array f s")
    case True
    then show ?thesis by blast
  next
    case False
    then obtain s1 where s1: "asyncPool_step K array f s s1" by (auto simp: at_rest_def)
    from asyncPool_reach_inv[OF less.prems] have "inv_loop array s" "inv_phase s" by simp_all
    from measure_step[OF s1 this assms] have lt: "pool_measure array f m s1 < pool_measure array f m s" .
    from reach_step[OF less.prems s1] have "asyncPool_reach K array f st s1" .
    from less.hyps[OF lt this] obtain s' where
      "rtranclp (asyncPool_step K array f) s1 s'" "at_rest K array f s'" by blast
    with s1 show ?thesis by (meson converse_rtranclp_into_rtranclp)
  qed
qed

lemma run_length:
  assumes "task_bound f m"
  shows "(asyncPool_step K array f ^^ n) (asyncPool_init st) s
         \<Longrightarrow> n + pool_measure array f m s \<le> pool_measure array f m (asyncPool_init st)"
proof (induction n arbitrary: s)
  case 0
  then show ?case by simp
next
  case (Suc n)
  from Suc.prems obtain s0 where a: "(asyncPool_step K array f ^^ n) (asyncPool_init st) s0"
    and b: "asyncPool_step K array f s0 s" by auto
  from a have "rtranclp (asyncPool_step K array f) (asyncPool_init st) s0"
    by (metis relpowp_imp_rtranclp)
  then have "asyncPool_reach K array f st s0" by (simp add: asyncPool_reach_def)
  from asyncPool_reach_inv[OF this] have "inv_loop array s0" "inv_phase s0" by simp_all
  from measure_step[OF b this assms] Suc.IH[OF a] show ?case by simp
qed

lemma resolves_in_the_end:
  assumes "asyncPool_reach K array f st s" and "never_throws f" and "task_bound f m"
  shows "\<exists>s' rs. rtranclp (asyncPool_step K array f) s s' \<and> control s' = Resolved rs"
proof -
  from comes_to_rest[OF assms(3,1)] obtain s' where
    s': "rtranclp (asyncPool_step K array f) s s'" "at_rest K array f s'" by blast
  from rest_resolved[OF reach_trans[OF assms(1) s'(1)] assms(2) s'(2)] s'(1)
  show ?thesis by blast
qed


text \<open>
  Claim C1, as amended. For every input array and every limit of at least 1, in every state
  that a call of \<^verbatim>\<open>asyncPool\<close> can reach: no position has been started twice, every
  started position is a position of the array and was started with the item at that
  position, and at most \<open>poolLimit\<close> tasks have been started and have not completed.
  When the call has resolved, every position has been started and every task has
  completed (fulfilled). When no task ever rejects, the event loop does not come to rest
  before the call has resolved, so no item is skipped; and when in addition every task
  suspends only a bounded number of times, every step lowers the measure of the work
  left, so no run goes on for ever and the call does resolve. (The claim as stated also
  covers tasks that reject; then the call rejects and the items not yet admitted are never
  started, as the run further down shows.)
\<close>

theorem asyncPool_starts_each_once_within_limit:
  assumes "1 \<le> poolLimit" and "asyncPool_reach poolLimit array iteratorFn st s"
  shows "distinct (started s) \<and> set (started s) \<subseteq> {..<length array}
       \<and> (\<forall>c \<in> set (calls s). fst (snd c) = array ! fst c)
       \<and> card (in_flight s) \<le> poolLimit
       \<and> (\<forall>rs. control s = Resolved rs \<longrightarrow>
            set (started s) = {..<length array} \<and> in_flight s = {}
            \<and> (\<forall>j < length array. fulfilled (settled s j)))
       \<and> (never_throws iteratorFn \<longrightarrow> at_rest poolLimit array iteratorFn s \<longrightarrow>
            (\<exists>rs. control s = Resolved rs))
       \<and> (task_bound iteratorFn m \<longrightarrow>
            (\<forall>s'. asyncPool_step poolLimit array iteratorFn s s' \<longrightarrow>
               pool_measure array iteratorFn m s' < pool_measure array iteratorFn m s))
       \<and> (never_throws iteratorFn \<longrightarrow> task_bound iteratorFn m \<longrightarrow>
            (\<exists>s' rs. rtranclp (asyncPool_step poolLimit array iteratorFn) s s' \<and> control s' = Resolved rs))"
proof -
  have 1: "distinct (started s) \<and> set (started s) \<subseteq> {..<length array}
       \<and> (\<forall>c \<in> set (calls s). fst (snd c) = array ! fst c)"
    by (rule started_once[OF assms(2)])
  have 2: "card (in_flight s) \<le> poolLimit" by (rule in_flight_bound[OF assms])
  have 3: "\<forall>rs. control s = Resolved rs \<longrightarrow>
            set (started s) = {..<length array} \<and> in_flight s = {}
            \<and> (\<forall>j < length array. fulfilled (settled s j))"
    using resolved_all_done[OF assms(2)] by simp
  have 4: "never_throws iteratorFn \<longrightarrow> at_rest poolLimit array iteratorFn s \<longrightarrow>
            (\<exists>rs. control s = Resolved rs)"
    using rest_resolved[OF assms(2)] by simp
  from asyncPool_reach_inv[OF assms(2)] have inv: "inv_loop array s" "inv_phase s" by simp_all
  have 5: "task_bound iteratorFn m \<longrightarrow>
            (\<forall>s'. asyncPool_step poolLimit array iteratorFn s s' \<longrightarrow>
               pool_measure array iteratorFn m s' < pool_measure array iteratorFn m s)"
    using measure_step[OF _ inv] by blast
  have 6: "never_throws iteratorFn \<longrightarrow> task_bound iteratorFn m \<longrightarrow>
            (\<exists>s' rs. rtranclp (asyncPool_step poolLimit array iteratorFn) s s' \<and> control s' = Resolved rs)"
    using resolves_in_the_end[OF assms(2)] by blast
  from 1 2 3 4 5 6 show ?thesis by blast
qed

subsection \<open>Runs of the executor\<close>

lemma failing_run: "asyncPool_reach 1 [''a'', ''b''] failing_task () rejected_early"
proof -
  let ?arr = "[''a'', ''b'']"
  let ?s0 = "asyncPool_init () :: (string, string, string, unit) pool_state"
  let ?s1 = "admit 1 ?arr ?s0"
  let ?s2 = "invoke ?arr failing_task 0 ?s1"
  let ?s3 = "advance failing_task 0 ''a'' ?s2"
  let ?s4 = "?s3\<lparr>control := Failed FetchRejected\<rparr>"
  have r0: "asyncPool_reach 1 ?arr failing_task () ?s0" by (rule reach_init)
  have "asyncPool_step 1 ?arr failing_task ?s0 ?s1"
    by (rule loop_turn) (simp_all add: asyncPool_init_def)
  from reach_step[OF r0 this] have r1: "asyncPool_reach 1 ?arr failing_task () ?s1" .
  have "asyncPool_step 1 ?arr failing_task ?s1 ?s2"
    by (rule job[where q="[]"]) (simp_all add: asyncPool_init_def)
  from reach_step[OF r1 this] have r2: "asyncPool_reach 1 ?arr failing_task () ?s2" .
  have "asyncPool_step 1 ?arr failing_task ?s2 ?s3"
    by (rule task) (simp_all add: asyncPool_init_def failing_task_def)
  from reach_step[OF r2 this] have r3: "asyncPool_reach 1 ?arr failing_task () ?s3" .
  have "asyncPool_step 1 ?arr failing_task ?s3 ?s4"
    by (rule race_rejected[where snap="[0]" and j=0])
       (simp_all add: asyncPool_init_def failing_task_def advance_settled)
  from reach_step[OF r3 this] have r4: "asyncPool_reach 1 ?arr failing_task () ?s4" .
  have "?s4 = rejected_early"
    by (simp add: rejected_early_def asyncPool_init_def admit_def invoke_def advance_def failing_task_def Let_def)
  with r4 show ?thesis by simp
qed

lemma failing_rest: "at_rest 1 [''a'', ''b''] failing_task rejected_early"
  unfolding at_rest_def
  by (auto elim!: asyncPool_step.cases simp: rejected_early_def)

text \<open>
  With the limit 1 and two items, the task of the first item rejects: the call rejects,
  the event loop comes to rest, and the task of the second item has never been started.
\<close>

theorem asyncPool_skips_after_rejection:
  "asyncPool_reach 1 [''a'', ''b''] failing_task () rejected_early
   \<and> at_rest 1 [''a'', ''b''] failing_task rejected_early
   \<and> control rejected_early = Failed FetchRejected
   \<and> started rejected_early = [0]"
  using failing_run failing_rest by (simp add: rejected_early_def started_def)

lemma echo_run_limit_1: "asyncPool_reach 1 [''a'', ''b''] echo_task () both_done"
proof -
  let ?arr = "[''a'', ''b'']"
  let ?s0 = "asyncPool_init () :: (string, string, string, unit) pool_state"
  let ?s1 = "admit 1 ?arr ?s0"
  let ?s2 = "invoke ?arr echo_task 0 ?s1"
  let ?s3 = "advance echo_task 0 ''a'' ?s2"
  let ?s4 = "?s3\<lparr>executing := remove1 0 (executing ?s3)\<rparr>"
  let ?s5 = "?s4\<lparr>control := InLoop\<rparr>"
  let ?s6 = "admit 1 ?arr ?s5"
  let ?s7 = "invoke ?arr echo_task 1 ?s6"
  let ?s8 = "advance echo_task 1 ''b'' ?s7"
  let ?s9 = "?s8\<lparr>executing := remove1 1 (executing ?s8)\<rparr>"
  let ?s10 = "?s9\<lparr>control := InLoop\<rparr>"
  let ?s11 = "?s10\<lparr>control := AwaitAll\<rparr>"
  let ?s12 = "?s11\<lparr>control := Resolved [''a'', ''b'']\<rparr>"
  note defs = asyncPool_init_def echo_task_def advance_settled advance_running
  have r0: "asyncPool_reach 1 ?arr echo_task () ?s0" by (rule reach_init)
  have "asyncPool_step 1 ?arr echo_task ?s0 ?s1"
    by (rule loop_turn) (simp_all add: defs)
  from reach_step[OF r0 this] have r1: "asyncPool_reach 1 ?arr echo_task () ?s1" .
  have "asyncPool_step 1 ?arr echo_task ?s1 ?s2"
    by (rule job[where q="[]"]) (simp_all add: defs)
  from reach_step[OF r1 this] have r2: "asyncPool_reach 1 ?arr echo_task () ?s2" .
  have "asyncPool_step 1 ?arr echo_task ?s2 ?s3"
    by (rule task) (simp_all add: defs)
  from reach_step[OF r2 this] have r3: "asyncPool_reach 1 ?arr echo_task () ?s3" .
  have "asyncPool_step 1 ?arr echo_task ?s3 ?s4"
    by (rule splice) (simp_all add: defs)
  from reach_step[OF r3 this] have r4: "asyncPool_reach 1 ?arr echo_task () ?s4" .
  have "asyncPool_step 1 ?arr echo_task ?s4 ?s5"
    by (rule race_fulfilled[where snap="[0]" and j=0]) (simp_all add: defs)
  from reach_step[OF r4 this] have r5: "asyncPool_reach 1 ?arr echo_task () ?s5" .
  have "asyncPool_step 1 ?arr echo_task ?s5 ?s6"
    by (rule loop_turn) (simp_all add: defs)
  from reach_step[OF r5 this] have r6: "asyncPool_reach 1 ?arr echo_task () ?s6" .
  have "asyncPool_step 1 ?arr echo_task ?s6 ?s7"
    by (rule job[where q="[]"]) (simp_all add: defs)
  from reach_step[OF r6 this] have r7: "asyncPool_reach 1 ?arr echo_task () ?s7" .
  have "asyncPool_step 1 ?arr echo_task ?s7 ?s8"
    by (rule task) (simp_all add: defs)
  from reach_step[OF r7 this] have r8: "asyncPool_reach 1 ?arr echo_task () ?s8" .
  have "asyncPool_step 1 ?arr echo_task ?s8 ?s9"
    by (rule splice) (simp_all add: defs)
  from reach_step[OF r8 this] have r9: "asyncPool_reach 1 ?arr echo_task () ?s9" .
  have "asyncPool_step 1 ?arr echo_task ?s9 ?s10"
    by (rule race_fulfilled[where snap="[1]" and j=1]) (simp_all add: defs)
  from reach_step[OF r9 this] have r10: "asyncPool_reach 1 ?arr echo_task () ?s10" .
  have "asyncPool_step 1 ?arr echo_task ?s10 ?s11"
    by (rule loop_exit) (simp_all add: defs)
  from reach_step[OF r10 this] have r11: "asyncPool_reach 1 ?arr echo_task () ?s11" .
  have "asyncPool_step 1 ?arr echo_task ?s11 ?s12"
    by (rule all_fulfilled) (simp_all add: defs)
  from reach_step[OF r11 this] have r12: "asyncPool_reach 1 ?arr echo_task () ?s12" .
  have "?s12 = both_done"
    by (simp add: both_done_def asyncPool_init_def admit_def invoke_def advance_def echo_task_def Let_def)
  with r12 show ?thesis by simp
qed

lemma both_done_rest: "at_rest 1 [''a'', ''b''] echo_task both_done"
  unfolding at_rest_def
  by (auto elim!: asyncPool_step.cases simp: both_done_def)

lemma echo_never_throws: "never_throws echo_task"
  by (simp add: never_throws_def echo_task_def)

lemma echo_task_bound: "task_bound echo_task (\<lambda>t. 0)"
  by (simp add: task_bound_def echo_task_def)

theorem asyncPool_starts_each_once_within_limit_witness:
  "(1::nat) \<le> 1 \<and> asyncPool_reach 1 [''a'', ''b''] echo_task () both_done
   \<and> control both_done = Resolved [''a'', ''b'']
   \<and> never_throws echo_task \<and> task_bound echo_task (\<lambda>t. 0)
   \<and> at_rest 1 [''a'', ''b''] echo_task both_done
   \<and> distinct (started both_done) \<and> set (started both_done) = {..<length [''a'', ''b'']}
   \<and> card (in_flight both_done) \<le> 1 \<and> in_flight both_done = {}
   \<and> fulfilled (settled both_done 0) \<and> fulfilled (settled both_done 1)
   \<and> asyncPool_reach 1 [''a'', ''b''] echo_task () (asyncPool_init ())
   \<and> asyncPool_step 1 [''a'', ''b''] echo_task (asyncPool_init ()) (admit 1 [''a'', ''b''] (asyncPool_init ()))
   \<and> pool_measure [''a'', ''b''] echo_task (\<lambda>t. 0) (admit 1 [''a'', ''b''] (asyncPool_init ()))
       < pool_measure [''a'', ''b''] echo_task (\<lambda>t. 0) (asyncPool_init ())"
proof -
  have c: "control both_done = Resolved [''a'', ''b'']" by (simp add: both_done_def)
  note t = asyncPool_starts_each_once_within_limit[OF order_refl echo_run_limit_1, of "\<lambda>t. 0"]
  from t have 1: "distinct (started both_done)" and 2: "card (in_flight both_done) \<le> 1"
    by blast+
  from t c have 3: "set (started both_done) = {..<length [''a'', ''b'']} \<and> in_flight both_done = {}
            \<and> (\<forall>j < length [''a'', ''b'']. fulfilled (settled both_done j))"
    by blast
  from 3 have 4: "fulfilled (settled both_done 0) \<and> fulfilled (settled both_done 1)" by simp
  have i: "asyncPool_reach 1 [''a'', ''b''] echo_task ()
             (asyncPool_init () :: (string, string, string, unit) pool_state)"
    by (rule reach_init)
  have st: "asyncPool_step 1 [''a'', ''b''] echo_task
             (asyncPool_init () :: (string, string, string, unit) pool_state)
             (admit 1 [''a'', ''b''] (asyncPool_init ()))"
    by (rule loop_turn) (simp_all add: asyncPool_init_def)
  note u = asyncPool_starts_each_once_within_limit[OF order_refl i, of "\<lambda>t. 0"]
  from u echo_task_bound st
  have 5: "pool_measure [''a'', ''b''] echo_task (\<lambda>t. 0)
             (admit 1 [''a'', ''b''] (asyncPool_init () :: (string, string, string, unit) pool_state))
       < pool_measure [''a'', ''b''] echo_task (\<lambda>t. 0) (asyncPool_init ())"
    by blast
  from 1 2 3 4 5 c i st echo_run_limit_1 echo_never_throws echo_task_bound both_done_rest
  show ?thesis by blast
qed











section \<open>Properties of the pipeline\<close>

lemma userRAP_turn_log:
  "userRAP_turn up uid st log =
     (fst (userRAP_turn up uid st []), log @ [Collectibles uid 100 (fst st)])"
  by (cases st) (simp add: userRAP_turn_def Let_def split: response.splits option.splits)

lemmas userRAP_loop_induct = userRAP_loop.raw_induct[rotated 1, consumes 1, case_names turn]

lemma userRAP_loop_any_log:
  "userRAP_loop up uid st log = Some y \<Longrightarrow> \<exists>l'. userRAP_loop up uid st log2 = Some (fst y, l')"
proof (induction arbitrary: log2 rule: userRAP_loop_induct)
  case (turn loop up uid st log y)
  show ?case
  proof (cases "fst (userRAP_turn up uid st [])")
    case (Again st')
    with turn(2) have "loop up uid st' (log @ [Collectibles uid 100 (fst st)]) = Some y"
      by (subst (asm) userRAP_turn_log) simp
    from turn(1)[OF this] obtain l' where
      "userRAP_loop up uid st' (log2 @ [Collectibles uid 100 (fst st)]) = Some (fst y, l')" by blast
    with Again show ?thesis
      by (subst userRAP_loop.simps, subst userRAP_turn_log) simp
  next
    case (Leave r)
    with turn(2) show ?thesis
      by (subst userRAP_loop.simps, subst userRAP_turn_log, subst (asm) userRAP_turn_log) auto
  next
    case (Throw e)
    with turn(2) show ?thesis
      by (subst userRAP_loop.simps, subst userRAP_turn_log, subst (asm) userRAP_turn_log) auto
  qed
qed

lemma userRAP_loop_value:
  "map_option fst (userRAP_loop up uid st log) = map_option fst (userRAP_loop up uid st log2)"
proof (cases "userRAP_loop up uid st log")
  case None
  show ?thesis
  proof (cases "userRAP_loop up uid st log2")
    case (Some y)
    from userRAP_loop_any_log[OF this, of log] None show ?thesis by simp
  qed (simp add: None)
next
  case (Some y)
  from userRAP_loop_any_log[OF this, of log2] Some show ?thesis by auto
qed






lemma rap_value_loop:
  "userRAP_loop up uid ([], 0) log = Some (r, log1) \<Longrightarrow> rap_value up uid = Some r"
  using userRAP_loop_any_log[of up uid "([], 0)" log "(r, log1)" "[]"]
  by (auto simp: rap_value_def fetchUserRAP_def)

lemma resume_member_task:
  "resume (member_task up) (uid, st) sh =
     (case userRAP_turn up uid st (requests sh) of
           (Again st', log') \<Rightarrow> (Again (uid, st'), sh\<lparr>requests := log'\<rparr>)
         | (Leave r, log') \<Rightarrow> (Leave (), sh\<lparr>rapResults := (rapResults sh)(uid \<mapsto> r), requests := log'\<rparr>)
         | (Throw err, log') \<Rightarrow> (Throw err, sh\<lparr>requests := log'\<rparr>))"
  by (simp add: member_task_def)

lemma start_member_task: "start (member_task up) m i = (userId (props m), ([], 0))"
  by (simp add: member_task_def)

lemma length_objects [simp]: "length (objects xs) = length xs"
  by (simp add: objects_def)

lemma nth_objects [simp]: "j < length xs \<Longrightarrow> objects xs ! j = Object j (xs ! j)"
  by (simp add: objects_def)

lemma objects_Nil [simp]: "objects [] = []"
  by (simp add: objects_def)

lemma objects_two: "objects [a, b] = [Object 0 a, Object 1 b]"
  by (simp add: objects_def)

lemma inv_tasks_step:
  assumes "asyncPool_step K (objects members) (member_task up) s s'"
    and "inv_loop (objects members) s" and "inv_phase s" and "inv_tasks up members s"
  shows "inv_tasks up members s'"
  using assms
proof (induction rule: asyncPool_step.induct)
  case (job s j q)
  then have "j < length members" by (auto simp: inv_loop_def inv_phase_def)
  moreover have "map_option fst (userRAP_loop up uid ([], 0) log) = rap_value up uid" for uid log
    using userRAP_loop_value[of up uid "([], 0)" log "[]"] by (simp add: rap_value_def fetchUserRAP_def)
  ultimately show ?case using job by (auto simp: inv_tasks_def start_member_task)
next
  case (task s j t)
  obtain uid st where t: "t = (uid, st)" by (cases t)
  from task.prems(3) have
    "\<forall>j uid st. running s j = Some (uid, st) \<longrightarrow>
        j < length members \<and> uid = userId (members ! j) \<and>
        (\<forall>log. map_option fst (userRAP_loop up uid st log) = rap_value up uid)"
    unfolding inv_tasks_def by blast
  with task.hyps(2) t have j: "j < length members" "uid = userId (members ! j)"
    and v: "\<And>log. map_option fst (userRAP_loop up uid st log) = rap_value up uid"
    by blast+
  from task have nj: "j \<notin> dom (settled s)" by (auto simp: inv_phase_def)
  obtain r log' where r: "userRAP_turn up uid st (requests (store s)) = (r, log')"
    by (cases "userRAP_turn up uid st (requests (store s))")
  show ?case
  proof (cases r)
    case (Again st')
    have "map_option fst (userRAP_loop up uid st' log) = rap_value up uid" for log
    proof -
      have "userRAP_loop up uid st (requests (store s)) = userRAP_loop up uid st' log'"
        using r Again by (subst userRAP_loop.simps) simp
      then show ?thesis using v[of "requests (store s)"] userRAP_loop_value[of up uid st' log log'] by simp
    qed
    with task t j r Again show ?thesis
      by (auto simp: inv_tasks_def advance_def resume_member_task)
  next
    case (Leave x)
    have "userRAP_loop up uid st (requests (store s)) = Some (Inr x, log')"
      using r Leave by (subst userRAP_loop.simps) simp
    with v[of "requests (store s)"] have "rap_value up uid = Some (Inr x)" by simp
    with task t j r Leave nj show ?thesis
      by (auto simp: inv_tasks_def advance_def resume_member_task dest: fulfilled_dom)
  next
    case (Throw e)
    with task t j r nj show ?thesis
      by (auto simp: inv_tasks_def advance_def resume_member_task dest: fulfilled_dom)
  qed
qed (auto simp: inv_tasks_def)

lemma member_pool_inv:
  assumes "asyncPool_reach K (objects members) (member_task up) \<lparr>rapResults = Map.empty, requests = log1\<rparr> s"
  shows "inv_tasks up members s"
  using assms unfolding asyncPool_reach_def
proof (induction rule: rtranclp_induct)
  case base
  show ?case by (simp add: inv_tasks_def asyncPool_init_def)
next
  case (step s s')
  from step.hyps(1) have "asyncPool_reach K (objects members) (member_task up) \<lparr>rapResults = Map.empty, requests = log1\<rparr> s"
    by (simp add: asyncPool_reach_def)
  from asyncPool_reach_inv[OF this] inv_tasks_step[OF step.hyps(2) _ _ step.IH] show ?case by simp
qed

lemma resolved_scores:
  assumes "asyncPool_reach K (objects members) (member_task up) \<lparr>rapResults = Map.empty, requests = log1\<rparr> s"
    and "control s = Resolved rs" and "m \<in> set members"
  shows "rapResults (store s) (userId m) = scores up (userId m) \<and> scores up (userId m) \<noteq> None"
proof -
  from assms(3) obtain j where j: "j < length members" "m = members ! j"
    by (auto simp: in_set_conv_nth)
  from asyncPool_reach_inv[OF assms(1)] assms(2) j have "fulfilled (settled s j)"
    by (auto simp: inv_result_def fulfilled_iff)
  with member_pool_inv[OF assms(1)] j obtain v where
    "rapResults (store s) (userId m) = Some v" "rap_value up (userId m) = Some (Inr v)"
    by (auto simp: inv_tasks_def)
  then show ?thesis by (simp add: scores_def)
qed


subsection \<open>Sorting\<close>

lemma set_insert_sorted: "set (insert_sorted cmp x ys) = insert x (set ys)"
  by (induction ys) auto

lemma mset_insert_sorted: "mset (insert_sorted cmp x ys) = add_mset x (mset ys)"
  by (induction ys) auto

lemma mset_sort_by: "mset (sort_by cmp xs) = mset xs"
  by (induction xs) (auto simp: sort_by_def mset_insert_sorted)

lemma sorted_insert_sorted:
  "sorted_wrt (\<lambda>a b. rap b \<le> rap a) ys
   \<Longrightarrow> sorted_wrt (\<lambda>a b. rap b \<le> rap a) (insert_sorted (\<lambda>a b. rap b - rap a) x ys)"
  by (induction ys) (auto simp: set_insert_sorted)

lemma sorted_sort_by:
  "sorted_wrt (\<lambda>a b. rap b \<le> rap a) (sort_by (\<lambda>a b. rap b - rap a) xs)"
  by (induction xs) (auto simp: sort_by_def sorted_insert_sorted)


subsection \<open>Runs of the pipeline\<close>

lemma failure_keeps_storage:
  "processCommunity up cid w (Inl err, w') \<Longrightarrow> local_storage w' = local_storage w"
  by (erule processCommunity.cases) simp_all

lemma success_writes_snapshot:
  "processCommunity up cid w (Inr ranked, w')
   \<Longrightarrow> local_storage w' = \<lparr>lastCommunityId = Some cid, lastResults = Some ranked\<rparr>"
  by (erule processCommunity.cases) simp_all

lemma empty_pool_states:
  assumes "asyncPool_reach K [] f st s"
  shows "s = asyncPool_init st \<or> s = (asyncPool_init st)\<lparr>control := AwaitAll\<rparr>
         \<or> s = (asyncPool_init st)\<lparr>control := Resolved []\<rparr>"
  using assms unfolding asyncPool_reach_def
proof (induction rule: rtranclp_induct)
  case base
  show ?case by simp
next
  case (step s s')
  from step.hyps(2) step.IH show ?case
    by (cases rule: asyncPool_step.cases) (auto simp: asyncPool_init_def)
qed

lemma empty_pool_run:
  "asyncPool_reach K [] f st ((asyncPool_init st)\<lparr>control := Resolved []\<rparr>)"
proof -
  let ?s0 = "asyncPool_init st :: ('a, 'b, 'c, 'd) pool_state"
  let ?s1 = "?s0\<lparr>control := AwaitAll\<rparr>"
  let ?s2 = "?s1\<lparr>control := Resolved []\<rparr>"
  have "asyncPool_step K [] f ?s0 ?s1" by (rule loop_exit) (simp_all add: asyncPool_init_def)
  from reach_step[OF reach_init this] have r1: "asyncPool_reach K [] f st ?s1" .
  have "asyncPool_step K [] f ?s1 ?s2" by (rule all_fulfilled) (simp_all add: asyncPool_init_def)
  from reach_step[OF r1 this] have "asyncPool_reach K [] f st ?s2" .
  moreover have "?s2 = (asyncPool_init st)\<lparr>control := Resolved []\<rparr>" by (simp add: asyncPool_init_def)
  ultimately show ?thesis by simp
qed

lemma empty_roster_run:
  assumes "fetchAllMembers up cid (network_log w) = Some (Inr [], log1)"
  shows "processCommunity up cid w
           (Inr [], \<lparr>local_storage = \<lparr>lastCommunityId = Some cid, lastResults = Some []\<rparr>,
                     network_log = log1\<rparr>)"
proof -
  let ?s = "(asyncPool_init \<lparr>rapResults = Map.empty, requests = log1\<rparr>)\<lparr>control := Resolved []\<rparr>
              :: (user_info object, nat \<times> string \<times> int, unit, shared) pool_state"
  have r: "asyncPool_reach CONCURRENCY_LIMIT (objects []) (member_task up)
             \<lparr>rapResults = Map.empty, requests = log1\<rparr> ?s"
    using empty_pool_run[of CONCURRENCY_LIMIT "member_task up"] by simp
  have "processCommunity up cid w
           (Inr (rank [] (rapResults (store ?s))),
            \<lparr>local_storage = \<lparr>lastCommunityId = Some cid,
                               lastResults = Some (rank [] (rapResults (store ?s)))\<rparr>,
             network_log = requests (store ?s)\<rparr>)"
    by (rule ranked[OF assms r]) simp_all
  then show ?thesis by (simp add: rank_def sort_by_def asyncPool_init_def)
qed

lemma empty_roster_only:
  assumes "fetchAllMembers up cid (network_log w) = Some (Inr [], log1)"
    and "processCommunity up cid w r"
  shows "r = (Inr [], \<lparr>local_storage = \<lparr>lastCommunityId = Some cid, lastResults = Some []\<rparr>,
                     network_log = log1\<rparr>)"
  using assms(2)
proof (cases rule: processCommunity.cases)
  case (roster_failed err log1')
  with assms(1) show ?thesis by simp
next
  case (pool_failed members log1' s err)
  with assms(1) have "asyncPool_reach CONCURRENCY_LIMIT [] (member_task up) \<lparr>rapResults = Map.empty, requests = log1\<rparr> s"
    by simp
  from empty_pool_states[OF this] pool_failed(4) show ?thesis by (auto simp: asyncPool_init_def)
next
  case (ranked members log1' s rs ranked)
  with assms(1) have "asyncPool_reach CONCURRENCY_LIMIT [] (member_task up) \<lparr>rapResults = Map.empty, requests = log1\<rparr> s"
    and m: "members = []" by simp_all
  from empty_pool_states[OF this(1)] ranked(4) have "store s = \<lparr>rapResults = Map.empty, requests = log1\<rparr>"
    by (auto simp: asyncPool_init_def)
  with ranked m show ?thesis by (simp add: rank_def sort_by_def)
qed


lemma demo_members:
  "fetchAllMembers demo_upstream (IdStr ''7'') l0 =
     Some (Inr [\<lparr>userId = 1, username = ''A''\<rparr>, \<lparr>userId = 2, username = ''B''\<rparr>],
           l0 @ [GroupUsers (IdStr ''7'') 100 [], GroupUsers (IdStr ''7'') 100 ''r2''])"
  unfolding fetchAllMembers_def
  apply (subst members_loop.simps)
  apply (simp add: members_turn_def demo_upstream_def demo_roster_def)
  apply (subst members_loop.simps)
  apply (simp add: members_turn_def demo_upstream_def demo_roster_def)
  done

lemma demo_pool_run:
  "\<exists>s. asyncPool_reach CONCURRENCY_LIMIT (objects [\<lparr>userId = 1, username = ''A''\<rparr>, \<lparr>userId = 2, username = ''B''\<rparr>])
     (member_task demo_upstream) \<lparr>rapResults = Map.empty, requests = l1\<rparr> s
   \<and> control s = Resolved [(), ()]
   \<and> store s = \<lparr>rapResults = [1 \<mapsto> 15000, 2 \<mapsto> 12000],
                 requests = l1 @ [Collectibles 1 100 [], Collectibles 2 100 [], Collectibles 2 100 ''i2'']\<rparr>"
proof -
  let ?ms = "[Object 0 \<lparr>userId = 1, username = ''A''\<rparr>, Object 1 \<lparr>userId = 2, username = ''B''\<rparr>]"
  let ?f = "member_task demo_upstream"
  let ?sh = "\<lparr>rapResults = Map.empty, requests = l1\<rparr>"
  let ?s0 = "asyncPool_init ?sh :: (user_info object, nat \<times> string \<times> int, unit, shared) pool_state"
  let ?s1 = "admit 15 ?ms ?s0"
  let ?s2 = "admit 15 ?ms ?s1"
  let ?s3 = "?s2\<lparr>control := AwaitAll\<rparr>"
  let ?s4 = "invoke ?ms ?f 0 ?s3"
  let ?s5 = "invoke ?ms ?f 1 ?s4"
  let ?s6 = "advance ?f 0 (1, ([], 0)) ?s5"
  let ?s7 = "advance ?f 1 (2, ([], 0)) ?s6"
  let ?s8 = "advance ?f 1 (2, (''i2'', 0)) ?s7"
  let ?s9 = "?s8\<lparr>control := Resolved [(), ()]\<rparr>"
  note defs = asyncPool_init_def advance_settled advance_running resume_member_task start_member_task
    userRAP_turn_def demo_upstream_def demo_inventory_def add_item_def LIMITED_THRESHOLD_def
    round_double_def
  have r0: "asyncPool_reach 15 ?ms ?f ?sh ?s0" by (rule reach_init)
  have "asyncPool_step 15 ?ms ?f ?s0 ?s1" by (rule loop_turn) (simp_all add: defs)
  from reach_step[OF r0 this] have r1: "asyncPool_reach 15 ?ms ?f ?sh ?s1" .
  have "asyncPool_step 15 ?ms ?f ?s1 ?s2" by (rule loop_turn) (simp_all add: defs)
  from reach_step[OF r1 this] have r2: "asyncPool_reach 15 ?ms ?f ?sh ?s2" .
  have "asyncPool_step 15 ?ms ?f ?s2 ?s3" by (rule loop_exit) (simp_all add: defs)
  from reach_step[OF r2 this] have r3: "asyncPool_reach 15 ?ms ?f ?sh ?s3" .
  have "asyncPool_step 15 ?ms ?f ?s3 ?s4" by (rule job[where q="[1]"]) (simp_all add: defs)
  from reach_step[OF r3 this] have r4: "asyncPool_reach 15 ?ms ?f ?sh ?s4" .
  have "asyncPool_step 15 ?ms ?f ?s4 ?s5" by (rule job[where q="[]"]) (simp_all add: defs)
  from reach_step[OF r4 this] have r5: "asyncPool_reach 15 ?ms ?f ?sh ?s5" .
  have "asyncPool_step 15 ?ms ?f ?s5 ?s6" by (rule task) (simp_all add: defs)
  from reach_step[OF r5 this] have r6: "asyncPool_reach 15 ?ms ?f ?sh ?s6" .
  have "asyncPool_step 15 ?ms ?f ?s6 ?s7" by (rule task) (simp_all add: defs)
  from reach_step[OF r6 this] have r7: "asyncPool_reach 15 ?ms ?f ?sh ?s7" .
  have "asyncPool_step 15 ?ms ?f ?s7 ?s8" by (rule task) (simp_all add: defs)
  from reach_step[OF r7 this] have r8: "asyncPool_reach 15 ?ms ?f ?sh ?s8" .
  have "asyncPool_step 15 ?ms ?f ?s8 ?s9" by (rule all_fulfilled) (simp_all add: defs)
  from reach_step[OF r8 this] have r9: "asyncPool_reach 15 ?ms ?f ?sh ?s9" .
  have c: "control ?s9 = Resolved [(), ()]" by (simp add: defs)
  have st: "store ?s9 = \<lparr>rapResults = [1 \<mapsto> 15000, 2 \<mapsto> 12000],
                 requests = l1 @ [Collectibles 1 100 [], Collectibles 2 100 [], Collectibles 2 100 ''i2'']\<rparr>"
    by (simp add: defs)
  from r9 c st show ?thesis unfolding CONCURRENCY_LIMIT_def objects_two by blast
qed

lemma demo_run:
  "processCommunity demo_upstream (IdStr ''7'') w
     (Inr demo_ranked,
      \<lparr>local_storage = \<lparr>lastCommunityId = Some (IdStr ''7''), lastResults = Some demo_ranked\<rparr>,
       network_log = network_log w @ demo_requests\<rparr>)"
proof -
  from demo_pool_run obtain s where
    r: "asyncPool_reach CONCURRENCY_LIMIT (objects [\<lparr>userId = 1, username = ''A''\<rparr>, \<lparr>userId = 2, username = ''B''\<rparr>])
     (member_task demo_upstream)
     \<lparr>rapResults = Map.empty,
      requests = network_log w @ [GroupUsers (IdStr ''7'') 100 [], GroupUsers (IdStr ''7'') 100 ''r2'']\<rparr> s"
    and c: "control s = Resolved [(), ()]"
    and st: "store s = \<lparr>rapResults = [1 \<mapsto> 15000, 2 \<mapsto> 12000],
                 requests = (network_log w @ [GroupUsers (IdStr ''7'') 100 [], GroupUsers (IdStr ''7'') 100 ''r2''])
                    @ [Collectibles 1 100 [], Collectibles 2 100 [], Collectibles 2 100 ''i2'']\<rparr>"
    by blast
  have rk: "rank [\<lparr>userId = 1, username = ''A''\<rparr>, \<lparr>userId = 2, username = ''B''\<rparr>] (rapResults (store s))
        = demo_ranked"
    by (simp add: st rank_def sort_by_def project_def demo_ranked_def)
  from ranked[OF demo_members r c rk[symmetric]] show ?thesis
    by (simp add: st demo_requests_def)
qed

lemma demo_roster_refused:
  "spec_page_chain (groups_api demo_upstream (IdStr ''8'')) [] [] (NonSuccess 400)"
  by (rule non_success[where p = no_page]) (simp add: demo_upstream_def demo_roster_def)

lemma offline_members:
  "fetchAllMembers offline_upstream (IdStr ''7'') l0 =
     Some (Inr [\<lparr>userId = 1, username = ''A''\<rparr>, \<lparr>userId = 2, username = ''B''\<rparr>],
           l0 @ [GroupUsers (IdStr ''7'') 100 [], GroupUsers (IdStr ''7'') 100 ''r2''])"
  unfolding fetchAllMembers_def
  apply (subst members_loop.simps)
  apply (simp add: members_turn_def offline_upstream_def demo_roster_def)
  apply (subst members_loop.simps)
  apply (simp add: members_turn_def offline_upstream_def demo_roster_def)
  done

lemma offline_rap:
  "fetchUserRAP offline_upstream uid l0 = Some (Inl FetchRejected, l0 @ [Collectibles uid 100 []])"
  unfolding fetchUserRAP_def
  by (subst userRAP_loop.simps) (simp add: userRAP_turn_def offline_upstream_def)

lemma offline_pool_run:
  "\<exists>s. asyncPool_reach CONCURRENCY_LIMIT (objects [\<lparr>userId = 1, username = ''A''\<rparr>, \<lparr>userId = 2, username = ''B''\<rparr>])
     (member_task offline_upstream) \<lparr>rapResults = Map.empty, requests = l1\<rparr> s
   \<and> control s = Failed FetchRejected
   \<and> requests (store s) = l1 @ [Collectibles 1 100 []]"
proof -
  let ?ms = "[Object 0 \<lparr>userId = 1, username = ''A''\<rparr>, Object 1 \<lparr>userId = 2, username = ''B''\<rparr>]"
  let ?f = "member_task offline_upstream"
  let ?sh = "\<lparr>rapResults = Map.empty, requests = l1\<rparr>"
  let ?s0 = "asyncPool_init ?sh :: (user_info object, nat \<times> string \<times> int, unit, shared) pool_state"
  let ?s1 = "admit 15 ?ms ?s0"
  let ?s2 = "admit 15 ?ms ?s1"
  let ?s3 = "?s2\<lparr>control := AwaitAll\<rparr>"
  let ?s4 = "invoke ?ms ?f 0 ?s3"
  let ?s5 = "advance ?f 0 (1, ([], 0)) ?s4"
  let ?s6 = "?s5\<lparr>control := Failed FetchRejected\<rparr>"
  note defs = asyncPool_init_def advance_settled advance_running resume_member_task start_member_task
    userRAP_turn_def offline_upstream_def
  have r0: "asyncPool_reach 15 ?ms ?f ?sh ?s0" by (rule reach_init)
  have "asyncPool_step 15 ?ms ?f ?s0 ?s1" by (rule loop_turn) (simp_all add: defs)
  from reach_step[OF r0 this] have r1: "asyncPool_reach 15 ?ms ?f ?sh ?s1" .
  have "asyncPool_step 15 ?ms ?f ?s1 ?s2" by (rule loop_turn) (simp_all add: defs)
  from reach_step[OF r1 this] have r2: "asyncPool_reach 15 ?ms ?f ?sh ?s2" .
  have "asyncPool_step 15 ?ms ?f ?s2 ?s3" by (rule loop_exit) (simp_all add: defs)
  from reach_step[OF r2 this] have r3: "asyncPool_reach 15 ?ms ?f ?sh ?s3" .
  have "asyncPool_step 15 ?ms ?f ?s3 ?s4" by (rule job[where q="[1]"]) (simp_all add: defs)
  from reach_step[OF r3 this] have r4: "asyncPool_reach 15 ?ms ?f ?sh ?s4" .
  have "asyncPool_step 15 ?ms ?f ?s4 ?s5" by (rule task) (simp_all add: defs)
  from reach_step[OF r4 this] have r5: "asyncPool_reach 15 ?ms ?f ?sh ?s5" .
  have "asyncPool_step 15 ?ms ?f ?s5 ?s6" by (rule all_rejected[where j=0]) (simp_all add: defs)
  from reach_step[OF r5 this] have r6: "asyncPool_reach 15 ?ms ?f ?sh ?s6" .
  have c: "control ?s6 = Failed FetchRejected" by simp
  have st: "requests (store ?s6) = l1 @ [Collectibles 1 100 []]" by (simp add: defs)
  from r6 c st show ?thesis unfolding CONCURRENCY_LIMIT_def objects_two by blast
qed

lemma offline_run:
  "processCommunity offline_upstream (IdStr ''7'') fresh_world
     (Inl FetchRejected,
      fresh_world\<lparr>network_log :=
        [GroupUsers (IdStr ''7'') 100 [], GroupUsers (IdStr ''7'') 100 ''r2'', Collectibles 1 100 []]\<rparr>)"
proof -
  from offline_pool_run obtain s where
    r: "asyncPool_reach CONCURRENCY_LIMIT (objects [\<lparr>userId = 1, username = ''A''\<rparr>, \<lparr>userId = 2, username = ''B''\<rparr>])
     (member_task offline_upstream)
     \<lparr>rapResults = Map.empty,
      requests = network_log fresh_world @ [GroupUsers (IdStr ''7'') 100 [], GroupUsers (IdStr ''7'') 100 ''r2'']\<rparr> s"
    and c: "control s = Failed FetchRejected"
    and st: "requests (store s) = (network_log fresh_world @ [GroupUsers (IdStr ''7'') 100 [], GroupUsers (IdStr ''7'') 100 ''r2''])
                    @ [Collectibles 1 100 []]"
    by blast
  from pool_failed[OF offline_members r c] show ?thesis
    by (simp add: st fresh_world_def)
qed

lemma offline_never_ranked:
  "\<not> processCommunity offline_upstream (IdStr ''7'') w (Inr ranked, w')"
proof
  assume "processCommunity offline_upstream (IdStr ''7'') w (Inr ranked, w')"
  then show False
  proof (cases rule: processCommunity.cases)
    case (ranked members log1 s rs)
    from ranked(2) have m: "members = [\<lparr>userId = 1, username = ''A''\<rparr>, \<lparr>userId = 2, username = ''B''\<rparr>]"
      by (simp add: offline_members)
    then have "\<lparr>userId = 1, username = ''A''\<rparr> \<in> set members" by simp
    from resolved_scores[OF ranked(3,4) this] have "scores offline_upstream 1 \<noteq> None" by simp
    then show False by (simp add: scores_def rap_value_def offline_rap)
  qed
qed

subsection \<open>Outcomes of a run\<close>

text \<open>
  Claim C4. When the roster fetch comes to a non-success response, \<^verbatim>\<open>processCommunity\<close>
  ends, and every run of it ends, with the failure that carries the status of that
  response; the stored snapshot is the one from before the run.
\<close>

theorem roster_failure_aborts_without_write:
  assumes "spec_page_chain (groups_api up communityId) [] ps (NonSuccess code)"
  shows "(\<exists>log'. processCommunity up communityId w
                   (Inl (FailedToFetchMembers code), w\<lparr>network_log := log'\<rparr>))
       \<and> (\<forall>r w'. processCommunity up communityId w (r, w') \<longrightarrow>
             r = Inl (FailedToFetchMembers code) \<and> local_storage w' = local_storage w)"
proof -
  from members_loop_chain_failed[OF assms assms, of code "[]" "network_log w"]
  obtain log' where f: "fetchAllMembers up communityId (network_log w)
       = Some (Inl (FailedToFetchMembers code), log')"
    by (auto simp: fetchAllMembers_def)
  show ?thesis
  proof (intro conjI allI impI)
    show "\<exists>log'. processCommunity up communityId w
                   (Inl (FailedToFetchMembers code), w\<lparr>network_log := log'\<rparr>)"
      by (rule exI, rule roster_failed[OF f])
  next
    fix r w' assume run: "processCommunity up communityId w (r, w')"
    then show "r = Inl (FailedToFetchMembers code)"
      using f by (cases rule: processCommunity.cases) simp_all
    from run show "local_storage w' = local_storage w"
      using f by (cases rule: processCommunity.cases) simp_all
  qed
qed

theorem roster_failure_aborts_without_write_witness:
  "spec_page_chain (groups_api demo_upstream (IdStr ''8'')) [] [] (NonSuccess 400)
   \<and> processCommunity demo_upstream (IdStr ''8'') demo_world
        (Inl (FailedToFetchMembers 400),
         demo_world\<lparr>network_log := network_log demo_world @ [GroupUsers (IdStr ''8'') 100 []]\<rparr>)
   \<and> local_storage (demo_world\<lparr>network_log := network_log demo_world @ [GroupUsers (IdStr ''8'') 100 []]\<rparr>)
       = \<lparr>lastCommunityId = Some (IdStr ''7''), lastResults = Some demo_ranked\<rparr>"
proof -
  have f: "fetchAllMembers demo_upstream (IdStr ''8'') (network_log demo_world)
       = Some (Inl (FailedToFetchMembers 400), network_log demo_world @ [GroupUsers (IdStr ''8'') 100 []])"
    unfolding fetchAllMembers_def
    by (subst members_loop.simps) (simp add: members_turn_def demo_upstream_def demo_roster_def)
  have run: "processCommunity demo_upstream (IdStr ''8'') demo_world
        (Inl (FailedToFetchMembers 400),
         demo_world\<lparr>network_log := network_log demo_world @ [GroupUsers (IdStr ''8'') 100 []]\<rparr>)"
    by (rule roster_failed[OF f])
  from roster_failure_aborts_without_write[OF demo_roster_refused, of demo_world]
  have "\<forall>r w'. processCommunity demo_upstream (IdStr ''8'') demo_world (r, w') \<longrightarrow>
             r = Inl (FailedToFetchMembers 400) \<and> local_storage w' = local_storage demo_world"
    by (rule conjunct2)
  from this[rule_format, OF run]
  have "local_storage (demo_world\<lparr>network_log := network_log demo_world @ [GroupUsers (IdStr ''8'') 100 []]\<rparr>)
       = local_storage demo_world" by (rule conjunct2)
  also have "\<dots> = \<lparr>lastCommunityId = Some (IdStr ''7''), lastResults = Some demo_ranked\<rparr>"
    by (simp add: demo_world_def)
  finally show ?thesis using run demo_roster_refused by (simp only: simp_thms)
qed

text \<open>
  Claim C6. The list returned by a successful run of \<^verbatim>\<open>processCommunity\<close> is
  non-increasing in \<^verbatim>\<open>rap\<close>, and it consists of one entry for every member of the fetched
  roster, with the member's name and the score recorded for the member's identifier in
  \<^verbatim>\<open>rapResults\<close> when the executor has resolved, or 0 when none is recorded.
\<close>

theorem ranked_sorted_projection:
  assumes "processCommunity up communityId w (Inr ranked, w')"
  shows "sorted_wrt (\<lambda>a b. rap b \<le> rap a) ranked
       \<and> (\<exists>members log1 s rs.
             fetchAllMembers up communityId (network_log w) = Some (Inr members, log1)
           \<and> asyncPool_reach CONCURRENCY_LIMIT (objects members) (member_task up)
                 \<lparr>rapResults = Map.empty, requests = log1\<rparr> s
           \<and> control s = Resolved rs
           \<and> mset ranked =
               mset (map (\<lambda>m. \<lparr>username' = username m,
                                 rap = (case rapResults (store s) (userId m) of
                                          None \<Rightarrow> 0 | Some v \<Rightarrow> v)\<rparr>) members))"
  using assms
proof (cases rule: processCommunity.cases)
  case (ranked members log1 s rs)
  have "sorted_wrt (\<lambda>a b. rap b \<le> rap a) ranked"
    unfolding ranked(5) rank_def by (rule sorted_sort_by)
  moreover have "mset ranked = mset (map (\<lambda>m. \<lparr>username' = username m,
                                 rap = (case rapResults (store s) (userId m) of
                                          None \<Rightarrow> 0 | Some v \<Rightarrow> v)\<rparr>) members)"
    unfolding ranked(5) rank_def mset_sort_by by (simp add: project_def[abs_def])
  ultimately show ?thesis using ranked(2,3,4) by blast
qed

theorem ranked_sorted_projection_witness:
  "processCommunity demo_upstream (IdStr ''7'') fresh_world (Inr demo_ranked, demo_world)
   \<and> sorted_wrt (\<lambda>a b. rap b \<le> rap a) demo_ranked
   \<and> (\<exists>members log1 s rs.
         fetchAllMembers demo_upstream (IdStr ''7'') (network_log fresh_world) = Some (Inr members, log1)
       \<and> asyncPool_reach CONCURRENCY_LIMIT (objects members) (member_task demo_upstream)
             \<lparr>rapResults = Map.empty, requests = log1\<rparr> s
       \<and> control s = Resolved rs
       \<and> mset demo_ranked =
           mset (map (\<lambda>m. \<lparr>username' = username m,
                             rap = (case rapResults (store s) (userId m) of
                                      None \<Rightarrow> 0 | Some v \<Rightarrow> v)\<rparr>) members))"
proof -
  have run: "processCommunity demo_upstream (IdStr ''7'') fresh_world (Inr demo_ranked, demo_world)"
    using demo_run[of fresh_world] by (simp add: fresh_world_def demo_world_def)
  from ranked_sorted_projection[OF run] run show ?thesis by (rule_tac conjI)
qed

text \<open>
  Claim C7. Every run of \<^verbatim>\<open>processCommunity\<close> that returns a ranked list leaves the
  storage holding exactly the requested community identifier and that list, whatever
  was stored before. When the roster is empty the run does end, it returns the empty
  list, and this is stored.
\<close>

theorem successful_run_persists_snapshot:
  "(\<forall>ranked w'. processCommunity up communityId w (Inr ranked, w') \<longrightarrow>
       local_storage w' = \<lparr>lastCommunityId = Some communityId, lastResults = Some ranked\<rparr>)
   \<and> (\<forall>log1. fetchAllMembers up communityId (network_log w) = Some (Inr [], log1) \<longrightarrow>
         processCommunity up communityId w
           (Inr [], \<lparr>local_storage = \<lparr>lastCommunityId = Some communityId, lastResults = Some []\<rparr>,
                     network_log = log1\<rparr>)
         \<and> (\<forall>r. processCommunity up communityId w r \<longrightarrow>
               r = (Inr [], \<lparr>local_storage = \<lparr>lastCommunityId = Some communityId, lastResults = Some []\<rparr>,
                              network_log = log1\<rparr>)))"
proof (intro conjI allI impI)
  fix ranked w' assume "processCommunity up communityId w (Inr ranked, w')"
  then show "local_storage w' = \<lparr>lastCommunityId = Some communityId, lastResults = Some ranked\<rparr>"
    by (rule success_writes_snapshot)
next
  fix log1 assume "fetchAllMembers up communityId (network_log w) = Some (Inr [], log1)"
  then show "processCommunity up communityId w
           (Inr [], \<lparr>local_storage = \<lparr>lastCommunityId = Some communityId, lastResults = Some []\<rparr>,
                     network_log = log1\<rparr>)"
    by (rule empty_roster_run)
next
  fix log1 r
  assume "fetchAllMembers up communityId (network_log w) = Some (Inr [], log1)"
    "processCommunity up communityId w r"
  then show "r = (Inr [], \<lparr>local_storage = \<lparr>lastCommunityId = Some communityId, lastResults = Some []\<rparr>,
                              network_log = log1\<rparr>)"
    by (rule empty_roster_only)
qed

theorem successful_run_persists_snapshot_witness:
  "processCommunity demo_upstream (IdStr ''7'') fresh_world (Inr demo_ranked, demo_world)
   \<and> local_storage demo_world = \<lparr>lastCommunityId = Some (IdStr ''7''), lastResults = Some demo_ranked\<rparr>
   \<and> fetchAllMembers demo_upstream (IdStr ''9'') (network_log demo_world)
        = Some (Inr [], demo_requests @ [GroupUsers (IdStr ''9'') 100 []])
   \<and> processCommunity demo_upstream (IdStr ''9'') demo_world
        (Inr [], \<lparr>local_storage = \<lparr>lastCommunityId = Some (IdStr ''9''), lastResults = Some []\<rparr>,
                  network_log = demo_requests @ [GroupUsers (IdStr ''9'') 100 []]\<rparr>)"
proof -
  have run: "processCommunity demo_upstream (IdStr ''7'') fresh_world (Inr demo_ranked, demo_world)"
    using demo_run[of fresh_world] by (simp add: fresh_world_def demo_world_def)
  have f: "fetchAllMembers demo_upstream (IdStr ''9'') (network_log demo_world)
        = Some (Inr [], demo_requests @ [GroupUsers (IdStr ''9'') 100 []])"
    unfolding fetchAllMembers_def
    by (subst members_loop.simps)
       (simp add: members_turn_def demo_upstream_def demo_roster_def no_page_def demo_world_def)
  note t = successful_run_persists_snapshot[of demo_upstream "IdStr ''7''" fresh_world]
  note u = successful_run_persists_snapshot[of demo_upstream "IdStr ''9''" demo_world]
  from t[THEN conjunct1, rule_format, OF run]
  have 1: "local_storage demo_world = \<lparr>lastCommunityId = Some (IdStr ''7''), lastResults = Some demo_ranked\<rparr>" .
  from u[THEN conjunct2, rule_format, OF f]
  have 2: "processCommunity demo_upstream (IdStr ''9'') demo_world
        (Inr [], \<lparr>local_storage = \<lparr>lastCommunityId = Some (IdStr ''9''), lastResults = Some []\<rparr>,
                  network_log = demo_requests @ [GroupUsers (IdStr ''9'') 100 []]\<rparr>)"
    by (rule conjunct1)
  from run 1 f 2 show ?thesis by (simp only: simp_thms)
qed



subsection \<open>The listener\<close>

lemma refresh_cases:
  "on_message up REFRESH w (r, w') \<longleftrightarrow>
     (\<not> has_last w \<and> r = Some (Failure NoPreviousCommunity) \<and> w' = w)
   \<or> (has_last w \<and> (\<exists>c res. lastCommunityId (local_storage w) = Some c
          \<and> processCommunity up c w (res, w') \<and> r = Some (to_reply res)))"
  by (auto elim: on_message.cases intro: on_message.intros)

text \<open>
  Claim C8, as amended. When the storage holds no \<^verbatim>\<open>lastCommunityId\<close>, or holds one that
  is falsy (the number 0 or the empty string), a \<^verbatim>\<open>REFRESH\<close> message is answered with the
  failure \<^verbatim>\<open>No previous community searched.\<close> and the world is left as it was: in
  particular the log of network requests has not grown. When a truthy identifier is
  stored, the replies to \<^verbatim>\<open>REFRESH\<close> are exactly the outcomes of \<^verbatim>\<open>processCommunity\<close> for
  that identifier. (The claim as stated has the pipeline re-run whenever an identifier is
  present; the listener tests \<^verbatim>\<open>if (items.lastCommunityId)\<close>, and the run further down
  shows a stored identifier for which nothing is re-run.)
\<close>

theorem refresh_needs_prior_query:
  "(lastCommunityId (local_storage w) = None \<longrightarrow>
      on_message up REFRESH w (Some (Failure NoPreviousCommunity), w)
    \<and> (\<forall>r w'. on_message up REFRESH w (r, w') \<longrightarrow>
          r = Some (Failure NoPreviousCommunity) \<and> w' = w))
   \<and> (\<forall>c. lastCommunityId (local_storage w) = Some c \<and> \<not> truthy c \<longrightarrow>
        on_message up REFRESH w (Some (Failure NoPreviousCommunity), w)
      \<and> (\<forall>r w'. on_message up REFRESH w (r, w') \<longrightarrow>
            r = Some (Failure NoPreviousCommunity) \<and> w' = w))
   \<and> (\<forall>c. lastCommunityId (local_storage w) = Some c \<and> truthy c \<longrightarrow>
        (\<forall>r w'. on_message up REFRESH w (r, w') \<longleftrightarrow>
           (\<exists>res. processCommunity up c w (res, w') \<and> r = Some (to_reply res))))"
proof (intro conjI allI impI)
  assume n: "lastCommunityId (local_storage w) = None"
  then have h: "\<not> has_last w" by (simp add: has_last_def)
  then show "on_message up REFRESH w (Some (Failure NoPreviousCommunity), w)"
    by (rule refresh_nothing)
  fix r w' assume "on_message up REFRESH w (r, w')"
  with h show "r = Some (Failure NoPreviousCommunity)" "w' = w"
    by (simp_all add: refresh_cases)
next
  fix c assume "lastCommunityId (local_storage w) = Some c \<and> \<not> truthy c"
  then have h: "\<not> has_last w" by (simp add: has_last_def)
  then show "on_message up REFRESH w (Some (Failure NoPreviousCommunity), w)"
    by (rule refresh_nothing)
  fix r w' assume "on_message up REFRESH w (r, w')"
  with h show "r = Some (Failure NoPreviousCommunity)" "w' = w"
    by (simp_all add: refresh_cases)
next
  fix c r w' assume "lastCommunityId (local_storage w) = Some c \<and> truthy c"
  then have "has_last w" and "lastCommunityId (local_storage w) = Some c"
    by (simp_all add: has_last_def)
  then show "on_message up REFRESH w (r, w') \<longleftrightarrow>
           (\<exists>res. processCommunity up c w (res, w') \<and> r = Some (to_reply res))"
    by (simp add: refresh_cases)
qed

theorem refresh_needs_prior_query_witness:
  "lastCommunityId (local_storage fresh_world) = None
   \<and> on_message demo_upstream REFRESH fresh_world (Some (Failure NoPreviousCommunity), fresh_world)
   \<and> lastCommunityId (local_storage zero_world) = Some (IdNum 0) \<and> \<not> truthy (IdNum 0)
   \<and> on_message demo_upstream REFRESH zero_world (Some (Failure NoPreviousCommunity), zero_world)
   \<and> lastCommunityId (local_storage demo_world) = Some (IdStr ''7'') \<and> truthy (IdStr ''7'')
   \<and> on_message demo_upstream REFRESH demo_world
        (Some (Success demo_ranked), demo_world\<lparr>network_log := demo_requests @ demo_requests\<rparr>)"
proof -
  have n: "lastCommunityId (local_storage fresh_world) = None" by (simp add: fresh_world_def)
  have z: "lastCommunityId (local_storage zero_world) = Some (IdNum 0) \<and> \<not> truthy (IdNum 0)"
    by (simp add: zero_world_def)
  have p: "lastCommunityId (local_storage demo_world) = Some (IdStr ''7'') \<and> truthy (IdStr ''7'')"
    by (simp add: demo_world_def)
  have run: "processCommunity demo_upstream (IdStr ''7'') demo_world
        (Inr demo_ranked, demo_world\<lparr>network_log := demo_requests @ demo_requests\<rparr>)"
    using demo_run[of demo_world] by (simp add: demo_world_def)
  note t = refresh_needs_prior_query[of fresh_world demo_upstream]
  note v = refresh_needs_prior_query[of zero_world demo_upstream]
  note u = refresh_needs_prior_query[of demo_world demo_upstream]
  from t n have 1: "on_message demo_upstream REFRESH fresh_world (Some (Failure NoPreviousCommunity), fresh_world)"
    by blast
  from v[THEN conjunct2, THEN conjunct1, rule_format, OF z]
  have 2: "on_message demo_upstream REFRESH zero_world (Some (Failure NoPreviousCommunity), zero_world)"
    by (rule conjunct1)
  from u[THEN conjunct2, THEN conjunct2, rule_format, OF p] run
  have 3: "on_message demo_upstream REFRESH demo_world
        (Some (to_reply (Inr demo_ranked)), demo_world\<lparr>network_log := demo_requests @ demo_requests\<rparr>)"
    by blast
  from n z p 1 2 3 show ?thesis by simp
qed

text \<open>
  A stored identifier that is not re-run. Against an upstream that knows community \<open>0\<close>,
  the message \<^verbatim>\<open>FETCH_COMMUNITY\<close> for the identifier \<open>0\<close> succeeds and stores it. The
  storage then holds a \<^verbatim>\<open>lastCommunityId\<close>, and a run of \<^verbatim>\<open>processCommunity\<close> for it would
  succeed again; but \<^verbatim>\<open>REFRESH\<close> answers \<^verbatim>\<open>No previous community searched.\<close> and issues
  no request.
\<close>

lemma zero_members:
  "fetchAllMembers empty_upstream (IdNum 0) l0 = Some (Inr [], l0 @ [GroupUsers (IdNum 0) 100 []])"
  unfolding fetchAllMembers_def
  by (subst members_loop.simps) (simp add: members_turn_def empty_upstream_def no_page_def)

theorem refresh_ignores_falsy_identifier:
  "on_message empty_upstream (FETCH_COMMUNITY (IdNum 0)) fresh_world (Some (Success []), zero_world)
   \<and> lastCommunityId (local_storage zero_world) = Some (IdNum 0)
   \<and> processCommunity empty_upstream (IdNum 0) zero_world
        (Inr [], zero_world\<lparr>network_log := [GroupUsers (IdNum 0) 100 [], GroupUsers (IdNum 0) 100 []]\<rparr>)
   \<and> on_message empty_upstream REFRESH zero_world (Some (Failure NoPreviousCommunity), zero_world)
   \<and> \<not> on_message empty_upstream REFRESH zero_world
        (Some (Success []),
         zero_world\<lparr>network_log := [GroupUsers (IdNum 0) 100 [], GroupUsers (IdNum 0) 100 []]\<rparr>)"
proof -
  have "processCommunity empty_upstream (IdNum 0) fresh_world (Inr [], zero_world)"
    using empty_roster_run[OF zero_members, of fresh_world]
    by (simp add: fresh_world_def zero_world_def)
  from fetch_community[OF this]
  have 1: "on_message empty_upstream (FETCH_COMMUNITY (IdNum 0)) fresh_world (Some (Success []), zero_world)"
    by simp
  have 2: "lastCommunityId (local_storage zero_world) = Some (IdNum 0)" by (simp add: zero_world_def)
  have 3: "processCommunity empty_upstream (IdNum 0) zero_world
        (Inr [], zero_world\<lparr>network_log := [GroupUsers (IdNum 0) 100 [], GroupUsers (IdNum 0) 100 []]\<rparr>)"
    using empty_roster_run[OF zero_members, of zero_world] by (simp add: zero_world_def)
  have h: "\<not> has_last zero_world" by (simp add: has_last_def zero_world_def)
  then have 4: "on_message empty_upstream REFRESH zero_world (Some (Failure NoPreviousCommunity), zero_world)"
    by (rule refresh_nothing)
  from h have 5: "\<not> on_message empty_upstream REFRESH zero_world
        (Some (Success []),
         zero_world\<lparr>network_log := [GroupUsers (IdNum 0) 100 [], GroupUsers (IdNum 0) 100 []]\<rparr>)"
    by (simp add: refresh_cases)
  from 1 2 3 4 5 show ?thesis by simp
qed

subsection \<open>An unreachable inventory\<close>

text \<open>A rejected request is the only way in which \<^verbatim>\<open>fetchUserRAP\<close> raises.\<close>

lemma userRAP_loop_raises:
  "userRAP_loop up uid st log = Some y \<Longrightarrow> fst y = Inl err
   \<Longrightarrow> err = FetchRejected \<and> (\<exists>c. inventory_api up uid c = Rejected)"
proof (induction rule: userRAP_loop_induct)
  case (turn loop up uid st log y)
  obtain cursor r where st: "st = (cursor, r)" by (cases st)
  show ?case
  proof (cases "inventory_api up uid cursor")
    case Rejected
    with turn(2,3) st show ?thesis by (auto simp: userRAP_turn_def)
  next
    case (Response okay code body)
    show ?thesis
    proof (cases "fst (userRAP_turn up uid st log)")
      case (Again st')
      then obtain l where "userRAP_turn up uid st log = (Again st', l)"
        by (cases "userRAP_turn up uid st log") simp
      with turn(2) have "loop up uid st' l = Some y" by simp
      from turn(1)[OF this turn(3)] show ?thesis .
    next
      case (Leave v)
      then obtain l where "userRAP_turn up uid st log = (Leave v, l)"
        by (cases "userRAP_turn up uid st log") simp
      with turn(2,3) show ?thesis by auto
    next
      case (Throw e)
      with Response st show ?thesis
        by (auto simp: userRAP_turn_def Let_def split: option.splits if_splits)
    qed
  qed
qed

lemma fetchUserRAP_raises_only_when_rejected:
  "fetchUserRAP up uid log = Some (Inl err, log')
   \<Longrightarrow> err = FetchRejected \<and> (\<exists>c. inventory_api up uid c = Rejected)"
  unfolding fetchUserRAP_def using userRAP_loop_raises[of up uid "([], 0)" log "(Inl err, log')" err]
  by simp

text \<open>
  Claim C3 at a failing input. When the inventory endpoint cannot be reached, the
  rejection of \<^verbatim>\<open>fetch\<close> is not caught: \<^verbatim>\<open>fetchUserRAP\<close> raises, the run of
  \<^verbatim>\<open>processCommunity\<close> fails with that error, and no run returns a ranking.
\<close>

theorem fetchUserRAP_raises_when_unreachable:
  "fetchUserRAP offline_upstream 1 [] = Some (Inl FetchRejected, [Collectibles 1 100 []])
   \<and> processCommunity offline_upstream (IdStr ''7'') fresh_world
        (Inl FetchRejected,
         fresh_world\<lparr>network_log :=
           [GroupUsers (IdStr ''7'') 100 [], GroupUsers (IdStr ''7'') 100 ''r2'', Collectibles 1 100 []]\<rparr>)
   \<and> (\<forall>ranked w'. \<not> processCommunity offline_upstream (IdStr ''7'') fresh_world (Inr ranked, w'))"
  using offline_rap[of 1 "[]"] offline_run offline_never_ranked by simp


end
